theory Spec2Isabelle
  imports Main "HOL-Library.AList"
begin


section \<open>Data model\<close>

text \<open>
  Values that travel through ports and event payloads are JavaScript values of type
  \<open>any\<close>. Numbers are modelled by integers; the only property of a number the engine
  ever looks at is whether it is zero (truthiness).
  An object (\<open>Record<string, any>\<close>) is an association list in key insertion order.
\<close>

datatype jsval =
    Undefined
  | Null
  | Bool bool
  | Num int
  | Str string
  | Obj "(string \<times> jsval) list"

type_synonym js_object = "(string \<times> jsval) list"

text \<open>JavaScript truthiness, as tested by \<open>if (v)\<close> and \<open>a && b\<close>.\<close>

fun truthy :: "jsval \<Rightarrow> bool" where
  "truthy Undefined = False"
| "truthy Null = False"
| "truthy (Bool b) = b"
| "truthy (Num n) = (n \<noteq> 0)"
| "truthy (Str s) = (s \<noteq> [])"
| "truthy (Obj kvs) = True"

text \<open>Property read \<open>o[k]\<close>: a missing key reads as \<open>undefined\<close>.\<close>

definition get_prop :: "js_object \<Rightarrow> string \<Rightarrow> jsval" where
  "get_prop obj k = (case map_of obj k of None \<Rightarrow> Undefined | Some v \<Rightarrow> v)"

text \<open>Property write \<open>o[k] = v\<close>: an existing key keeps its place, a new key goes last.\<close>

definition set_prop :: "js_object \<Rightarrow> string \<Rightarrow> jsval \<Rightarrow> js_object" where
  "set_prop obj k v = AList.update k v obj"

text \<open>\<open>Object.assign(target, source)\<close>: every own property of the source is written
  to the target, in the source's order.\<close>

definition object_assign :: "js_object \<Rightarrow> js_object \<Rightarrow> js_object" where
  "object_assign target source = fold (\<lambda>(k, v) acc. set_prop acc k v) source target"

record connection =
  connection_id :: string
  sourceNodeId :: string
  sourcePortId :: string
  targetNodeId :: string
  targetPortId :: string

record node =
  node_id :: string
  node_type :: string

record workflow =
  workflow_id :: string
  nodes :: "node list"
  connections :: "connection list"
  entryPoints :: "string list"
  exitPoints :: "string list"

section \<open>EventPropagator\<close>

text \<open>
  The propagator owns the table of registered workflows, the list of filters and the set
  of visited nodes. \<open>busPublished\<close> lists the calls \<open>eventBus.publish(type, data)\<close> the
  propagator has made, oldest first.
  Filters and the transform are user functions: they return a value or throw.
\<close>

datatype propagator_error =
    AlreadyRegistered string
  | NotRegistered string
  | UserException string

record propagation_options =
  propagateChain :: bool
  transform :: "(js_object \<Rightarrow> string \<Rightarrow> string \<Rightarrow> propagator_error + js_object) option"

record event_propagator =
  workflows :: "string \<rightharpoonup> workflow"
  filters :: "(string \<Rightarrow> js_object \<Rightarrow> propagator_error + bool) list"
  visitedNodes :: "string set"
  busPublished :: "(string \<times> js_object) list"

definition hasWorkflow :: "event_propagator \<Rightarrow> string \<Rightarrow> bool" where
  "hasWorkflow p wid = (workflows p wid \<noteq> None)"

text \<open>\<open>registerWorkflow\<close> returns the exception it throws, if any, and the propagator
  as the call leaves it.\<close>

definition registerWorkflow ::
  "workflow \<Rightarrow> event_propagator \<Rightarrow> propagator_error option \<times> event_propagator" where
  "registerWorkflow w p =
     (if hasWorkflow p (workflow_id w)
      then (Some (AlreadyRegistered (workflow_id w)), p)
      else (None, p\<lparr>workflows := (workflows p)(workflow_id w \<mapsto> w)\<rparr>))"

definition unregisterWorkflow :: "string \<Rightarrow> event_propagator \<Rightarrow> event_propagator" where
  "unregisterWorkflow wid p = p\<lparr>workflows := (workflows p)(wid := None)\<rparr>"

text \<open>The message of the error thrown by \<open>registerWorkflow\<close> and \<open>propagateEvent\<close>.\<close>

fun propagator_error_message :: "propagator_error \<Rightarrow> string" where
  "propagator_error_message (AlreadyRegistered wid) =
     ''Workflow with ID '' @ wid @ '' is already registered''"
| "propagator_error_message (NotRegistered wid) =
     ''Workflow with ID '' @ wid @ '' is not registered''"
| "propagator_error_message (UserException msg) = msg"

text \<open>\<open>passesFilters\<close>: the filters are asked in order; the first that rejects ends the
  loop with false, and a filter that throws ends it with its exception.\<close>

fun passesFilterList ::
  "(string \<Rightarrow> js_object \<Rightarrow> propagator_error + bool) list \<Rightarrow> string \<Rightarrow> js_object
     \<Rightarrow> propagator_error + bool" where
  "passesFilterList [] eventType d = Inr True"
| "passesFilterList (f # fs) eventType d =
     (case f eventType d of
        Inl e \<Rightarrow> Inl e
      | Inr ok \<Rightarrow> if \<not> ok then Inr False else passesFilterList fs eventType d)"

definition passesFilters ::
  "event_propagator \<Rightarrow> string \<Rightarrow> js_object \<Rightarrow> propagator_error + bool" where
  "passesFilters p eventType d = passesFilterList (filters p) eventType d"

definition nodeEventType :: "string \<Rightarrow> string \<Rightarrow> string" where
  "nodeEventType targetId eventType = ''node:'' @ targetId @ '':'' @ eventType"

text \<open>
  \<open>propagateEventToConnectedNodes\<close> is asynchronous: at each \<open>await\<close> the call is
  suspended and other code runs before it goes on. At the \<open>await\<close> of
  \<open>eventBus.publish\<close> that code includes the callbacks of the subscribers of the
  published event; at either \<open>await\<close> it may be another task, such as a second call of
  \<open>propagateEvent\<close>. All of it can reach the propagator, whose visited set is one field
  shared by all calls. What the other code does to the propagator is a parameter of the
  model: a \<open>suspension\<close> maps the propagator at the \<open>await\<close> (and the event, at the
  \<open>await\<close> of a publish) to the propagator the call finds when it resumes.
\<close>

type_synonym suspension =
  "(string \<times> js_object) option \<Rightarrow> event_propagator \<Rightarrow> event_propagator"

text \<open>\<open>await this.eventBus.publish(type, data)\<close>: the call is logged, then the
  suspension takes place. The bus catches what a subscriber callback throws, so the
  publish itself does not throw.\<close>

definition bus_publish ::
  "suspension \<Rightarrow> string \<Rightarrow> js_object \<Rightarrow> event_propagator \<Rightarrow> event_propagator" where
  "bus_publish meanwhile eventType d p =
     meanwhile (Some (eventType, d)) (p\<lparr>busPublished := busPublished p @ [(eventType, d)]\<rparr>)"

text \<open>
  The payload sent along one connection: \<open>{ ...data, sourceNodeId }\<close>, replaced by
  the result of \<open>options.transform\<close> when a transform is given.
\<close>

definition edgeEventData ::
  "propagation_options \<Rightarrow> js_object \<Rightarrow> string \<Rightarrow> string \<Rightarrow> propagator_error + js_object" where
  "edgeEventData opts d src tgt =
     (case transform opts of
        None \<Rightarrow> Inr (set_prop d ''sourceNodeId'' (Str src))
      | Some f \<Rightarrow> f (set_prop d ''sourceNodeId'' (Str src)) src tgt)"

text \<open>
  \<open>propagateEventToConnectedNodes\<close>, with its \<open>for\<close> loop over the outgoing
  connections as \<open>propagateConnections\<close>. The loop carries the source node and the
  payload the enclosing call was given. With other code able to clear the visited set,
  a call need not return; the first argument after the suspension bounds the depth to which
  calls may nest, and the result \<open>None\<close> says that the call has not returned within that
  depth. A result \<open>Some (Some e, p)\<close> is the exception \<open>e\<close> thrown with the propagator in
  state \<open>p\<close>, and \<open>Some (None, p)\<close> a normal return.
\<close>

fun propagateEventToConnectedNodes ::
    "suspension \<Rightarrow> nat \<Rightarrow> workflow \<Rightarrow> string \<Rightarrow> string \<Rightarrow> js_object \<Rightarrow> propagation_options
       \<Rightarrow> event_propagator \<Rightarrow> (propagator_error option \<times> event_propagator) option"
  and propagateConnections ::
    "suspension \<Rightarrow> nat \<Rightarrow> workflow \<Rightarrow> string \<Rightarrow> connection list \<Rightarrow> string \<Rightarrow> js_object
       \<Rightarrow> propagation_options
       \<Rightarrow> event_propagator \<Rightarrow> (propagator_error option \<times> event_propagator) option"
where
  "propagateEventToConnectedNodes meanwhile 0 w src eventType d opts p = None"
| "propagateEventToConnectedNodes meanwhile (Suc depth) w src eventType d opts p =
     (if src \<in> visitedNodes p then Some (None, p)
      else propagateConnections meanwhile depth w src
             (filter (\<lambda>conn. sourceNodeId conn = src) (connections w))
             eventType d opts
             (p\<lparr>visitedNodes := insert src (visitedNodes p)\<rparr>))"
| "propagateConnections meanwhile depth w src [] eventType d opts p = Some (None, p)"
| "propagateConnections meanwhile depth w src (c # cs) eventType d opts p =
     (case edgeEventData opts d src (targetNodeId c) of
        Inl e \<Rightarrow> Some (Some e, p)
      | Inr eventData \<Rightarrow>
          (case passesFilters p eventType eventData of
             Inl e \<Rightarrow> Some (Some e, p)
           | Inr ok \<Rightarrow>
               if \<not> ok then propagateConnections meanwhile depth w src cs eventType d opts p
               else if propagateChain opts
               then (case propagateEventToConnectedNodes meanwhile depth w (targetNodeId c)
                            eventType eventData opts
                            (bus_publish meanwhile
                               (nodeEventType (targetNodeId c) eventType) eventData p) of
                       None \<Rightarrow> None
                     | Some (Some e, p') \<Rightarrow> Some (Some e, p')
                     | Some (None, p') \<Rightarrow>
                         propagateConnections meanwhile depth w src cs eventType d opts
                           (meanwhile None p'))
               else propagateConnections meanwhile depth w src cs eventType d opts
                      (bus_publish meanwhile
                         (nodeEventType (targetNodeId c) eventType) eventData p)))"

text \<open>
  \<open>propagateEvent\<close>: the workflow must be registered; the visited set is cleared and
  propagation starts from the source node.
\<close>

definition propagateEvent ::
  "suspension \<Rightarrow> nat \<Rightarrow> string \<Rightarrow> string \<Rightarrow> string \<Rightarrow> js_object \<Rightarrow> propagation_options
     \<Rightarrow> event_propagator \<Rightarrow> (propagator_error option \<times> event_propagator) option" where
  "propagateEvent meanwhile depth wid src eventType d opts p =
     (case workflows p wid of
        None \<Rightarrow> Some (Some (NotRegistered wid), p)
      | Some w \<Rightarrow>
          propagateEventToConnectedNodes meanwhile depth w src eventType d opts
            (p\<lparr>visitedNodes := {}\<rparr>))"




definition overlapping :: suspension where
  "overlapping ev q = q\<lparr>visitedNodes := {}\<rparr>"

text \<open>A freshly constructed propagator, and the two-node circular workflow of the
  propagator's test suite (\<open>a \<rightarrow> b\<close>, \<open>b \<rightarrow> a\<close>).\<close>

definition new_propagator :: event_propagator where
  "new_propagator =
     \<lparr>workflows = Map.empty, filters = [], visitedNodes = {}, busPublished = []\<rparr>"

definition circular_workflow :: workflow where
  "circular_workflow =
     \<lparr>workflow_id = ''circular-workflow'',
      nodes = [\<lparr>node_id = ''a'', node_type = ''process''\<rparr>,
               \<lparr>node_id = ''b'', node_type = ''process''\<rparr>],
      connections =
        [\<lparr>connection_id = ''conn-1'', sourceNodeId = ''a'', sourcePortId = ''out-1'',
          targetNodeId = ''b'', targetPortId = ''in-1''\<rparr>,
         \<lparr>connection_id = ''conn-2'', sourceNodeId = ''b'', sourcePortId = ''out-1'',
          targetNodeId = ''a'', targetPortId = ''in-1''\<rparr>],
      entryPoints = [], exitPoints = []\<rparr>"

text \<open>
  Observations on the bus log: how many of the logged publishes address node \<open>t\<close> for
  the event type, which publishes a call has added, and how many connections into
  \<open>t\<close> leave from a given set of nodes.
\<close>

definition deliveredTo :: "string \<Rightarrow> string \<Rightarrow> (string \<times> js_object) list \<Rightarrow> nat" where
  "deliveredTo t eventType log = length (filter (\<lambda>e. fst e = nodeEventType t eventType) log)"



text \<open>Options and workflows used in examples: chaining without transform, a propagator
  with one workflow registered, and the diamond \<open>S \<rightarrow> {L, R} \<rightarrow> J\<close>.\<close>

definition chain_options :: propagation_options where
  "chain_options = \<lparr>propagateChain = True, transform = None\<rparr>"

definition registered :: "workflow \<Rightarrow> event_propagator" where
  "registered w = snd (registerWorkflow w new_propagator)"

definition mk_connection :: "string \<Rightarrow> string \<Rightarrow> string \<Rightarrow> string \<Rightarrow> string \<Rightarrow> connection" where
  "mk_connection cid src sp tgt tp =
     \<lparr>connection_id = cid, sourceNodeId = src, sourcePortId = sp,
      targetNodeId = tgt, targetPortId = tp\<rparr>"


section \<open>What a propagation call achieves\<close>




section \<open>WorkflowEngine: execution order\<close>

datatype engine_error =
    CycleError string
  | NodeExecutionError string
  | NoActiveWorkflow string
  | Cancelled_Error
  | Timeout_Error

text \<open>The message carried by an engine error.\<close>

fun engine_error_message :: "engine_error \<Rightarrow> string" where
  "engine_error_message (CycleError nodeId) =
     ''Workflow contains a cycle involving node '' @ nodeId"
| "engine_error_message (NodeExecutionError msg) = msg"
| "engine_error_message (NoActiveWorkflow wid) = ''No active workflow with ID '' @ wid"
| "engine_error_message Cancelled_Error = ''Workflow execution was cancelled''"
| "engine_error_message Timeout_Error = ''Workflow execution timed out''"

text \<open>\<open>getNodeDependencies\<close>: the sources of the connections that target the node, in
  connection order.\<close>

definition getNodeDependencies :: "string \<Rightarrow> workflow \<Rightarrow> string list" where
  "getNodeDependencies nodeId w =
     map sourceNodeId (filter (\<lambda>connection. targetNodeId connection = nodeId) (connections w))"

text \<open>
  The three local variables of \<open>topologicalSort\<close> that the helper \<open>visit\<close> closes
  over. A \<open>throw\<close> abandons them, so an error carries no state.
\<close>

record sort_state =
  result :: "string list"
  visited :: "string set"
  temp :: "string set"

text \<open>
  The depth-first helper \<open>visit\<close>; \<open>visitAll\<close> is the loop
  \<open>for (const id of ids) visit(id)\<close>, used for the dependencies of a node and for the
  entry points.
\<close>

function visit :: "workflow \<Rightarrow> string \<Rightarrow> sort_state \<Rightarrow> engine_error + sort_state"
  and visitAll :: "workflow \<Rightarrow> string list \<Rightarrow> sort_state \<Rightarrow> engine_error + sort_state"
where
  "visit w nodeId s =
     (if nodeId \<in> temp s then Inl (CycleError nodeId)
      else if nodeId \<in> visited s then Inr s
      else (case visitAll w (getNodeDependencies nodeId w) (s\<lparr>temp := insert nodeId (temp s)\<rparr>) of
              Inl e \<Rightarrow> Inl e
            | Inr s' \<Rightarrow>
                Inr (s'\<lparr>temp := temp s' - {nodeId},
                        visited := insert nodeId (visited s'),
                        result := result s' @ [nodeId]\<rparr>)))"
| "visitAll w [] s = Inr s"
| "visitAll w (depId # ids) s =
     (case visit w depId s of
        Inl e \<Rightarrow> Inl e
      | Inr s' \<Rightarrow> visitAll w ids s')"
  by pat_completeness auto

text \<open>A call of \<open>visit\<close> that returns leaves \<open>temp\<close> as it found it.\<close>

lemma visit_temp_restored:
  "visit_visitAll_dom (Inl (w, nodeId, s)) \<Longrightarrow> visit w nodeId s = Inr s' \<Longrightarrow> temp s' = temp s"
  "visit_visitAll_dom (Inr (w, ids, s)) \<Longrightarrow> visitAll w ids s = Inr s' \<Longrightarrow> temp s' = temp s"
proof (induction arbitrary: s' and s' rule: visit_visitAll.pinduct)
  case (1 w nodeId s)
  show ?case
  proof (cases "nodeId \<in> temp s \<or> nodeId \<in> visited s")
    case True
    then show ?thesis using 1(1,3) by (auto simp: visit.psimps split: if_splits)
  next
    case False
    then obtain s'' where
      all: "visitAll w (getNodeDependencies nodeId w) (s\<lparr>temp := insert nodeId (temp s)\<rparr>) = Inr s''"
      and s': "s' = s''\<lparr>temp := temp s'' - {nodeId}, visited := insert nodeId (visited s''),
                        result := result s'' @ [nodeId]\<rparr>"
      using 1(1,3) by (auto simp: visit.psimps split: sum.splits)
    from 1(2)[OF _ _ all] False have "temp s'' = insert nodeId (temp s)" by simp
    then show ?thesis using False s' by auto
  qed
next
  case (2 w s)
  then show ?case by (simp add: visitAll.psimps)
next
  case (3 w depId ids s)
  from 3(1,4) obtain s1 where v: "visit w depId s = Inr s1" and r: "visitAll w ids s1 = Inr s'"
    by (auto simp: visitAll.psimps split: sum.splits)
  from 3(2)[OF v] 3(3)[OF v r] show ?case by simp
qed

text \<open>The number of nodes of interest that are not on the current path.\<close>

definition off_path :: "workflow \<Rightarrow> string set \<Rightarrow> sort_state \<Rightarrow> nat" where
  "off_path w extra s = card ((sourceNodeId ` set (connections w) \<union> extra) - temp s)"

lemma off_path_mono:
  "finite extra' \<Longrightarrow> extra \<subseteq> sourceNodeId ` set (connections w) \<union> extra'
     \<Longrightarrow> temp s' \<subseteq> temp s
     \<Longrightarrow> off_path w extra s \<le> off_path w extra' s'"
  unfolding off_path_def by (rule card_mono) auto

lemma set_getNodeDependencies:
  "set (getNodeDependencies nodeId w) \<subseteq> sourceNodeId ` set (connections w)"
  by (auto simp: getNodeDependencies_def)

termination visit
proof (relation "inv_image (less_than <*lex*> less_than)
    (\<lambda>x. case x of
        Inl (w, nodeId, s) \<Rightarrow> (off_path w {nodeId} s, 0)
      | Inr (w, ids, s) \<Rightarrow> (off_path w (set ids) s, Suc (length ids)))",
    goal_cases)
  case 1
  show ?case by (intro wf_inv_image wf_lex_prod wf_less_than)
next
  case (2 w nodeId s)
  have "(sourceNodeId ` set (connections w) \<union> set (getNodeDependencies nodeId w))
          - insert nodeId (temp s)
        \<subset> (sourceNodeId ` set (connections w) \<union> {nodeId}) - temp s"
    using 2 set_getNodeDependencies[of nodeId w] by auto
  then have "off_path w (set (getNodeDependencies nodeId w)) (s\<lparr>temp := insert nodeId (temp s)\<rparr>)
             < off_path w {nodeId} s"
    unfolding off_path_def by (simp add: psubset_card_mono)
  then show ?case by simp
next
  case (3 w depId ids s)
  have "off_path w {depId} s \<le> off_path w (set (depId # ids)) s"
    by (rule off_path_mono) auto
  then show ?case by (auto simp: le_less)
next
  case (4 w depId ids s s')
  then have "temp s' = temp s" by (simp add: visit_temp_restored(1))
  then have "off_path w (set ids) s' \<le> off_path w (set (depId # ids)) s"
    by (intro off_path_mono) auto
  then show ?case by (auto simp: le_less)
qed

declare visit.simps [simp del]

text \<open>The second loop of \<open>topologicalSort\<close>: every node not visited yet is visited.\<close>

fun visitNodes :: "workflow \<Rightarrow> node list \<Rightarrow> sort_state \<Rightarrow> engine_error + sort_state" where
  "visitNodes w [] s = Inr s"
| "visitNodes w (n # ns) s =
     (if node_id n \<notin> visited s
      then (case visit w (node_id n) s of
              Inl e \<Rightarrow> Inl e
            | Inr s' \<Rightarrow> visitNodes w ns s')
      else visitNodes w ns s)"

definition topologicalSort :: "workflow \<Rightarrow> engine_error + string list" where
  "topologicalSort w =
     (case visitAll w (entryPoints w) \<lparr>result = [], visited = {}, temp = {}\<rparr> of
        Inl e \<Rightarrow> Inl e
      | Inr s \<Rightarrow>
          (case visitNodes w (nodes w) s of
             Inl e \<Rightarrow> Inl e
           | Inr s' \<Rightarrow> Inr (result s')))"

text \<open>
  The dependency relation of a workflow: \<open>(u, v)\<close> when some connection leads from an
  output of \<open>u\<close> to an input of \<open>v\<close>. An order respects the dependencies when every
  connection's source stands strictly before each occurrence of its target.
\<close>

definition feeds :: "workflow \<Rightarrow> (string \<times> string) set" where
  "feeds w = (\<lambda>c. (sourceNodeId c, targetNodeId c)) ` set (connections w)"

definition respectsDependencies :: "workflow \<Rightarrow> string list \<Rightarrow> bool" where
  "respectsDependencies w order =
     (\<forall>c \<in> set (connections w). \<forall>i < length order.
        order ! i = targetNodeId c \<longrightarrow> sourceNodeId c \<in> set (take i order))"

text \<open>The invariant of the sort: the result lists the visited nodes once each, in an
  order that respects the dependencies, and no node on the current path is visited.\<close>

definition sort_inv :: "workflow \<Rightarrow> sort_state \<Rightarrow> bool" where
  "sort_inv w s \<longleftrightarrow>
     distinct (result s) \<and> set (result s) = visited s \<and> respectsDependencies w (result s)
     \<and> visited s \<inter> temp s = {}"

text \<open>The linear three-node workflow \<open>A \<rightarrow> B \<rightarrow> C\<close>.\<close>

definition linear_workflow :: workflow where
  "linear_workflow =
     \<lparr>workflow_id = ''linear'',
      nodes = [\<lparr>node_id = ''A'', node_type = ''const''\<rparr>,
               \<lparr>node_id = ''B'', node_type = ''double''\<rparr>,
               \<lparr>node_id = ''C'', node_type = ''sink''\<rparr>],
      connections =
        [mk_connection ''c1'' ''A'' ''v'' ''B'' ''v'',
         mk_connection ''c2'' ''B'' ''v'' ''C'' ''v''],
      entryPoints = [''A''], exitPoints = [''C'']\<rparr>"

section \<open>WorkflowEngine: gathering inputs and grouping levels\<close>

datatype workflow_status = Pending | Running | Paused | Completed | Failed | Cancelled

text \<open>The execution context of a run; the start time and the logger are left out.\<close>

record execution_context =
  ctx_workflowId :: string
  nodeOutputs :: "string \<rightharpoonup> js_object"
  ctx_status :: workflow_status
  ctx_variables :: js_object

text \<open>
  The loop of \<open>gatherInputs\<close> over the connections: a connection into the node
  contributes when the source has outputs and the value on the source port is truthy.
\<close>

fun gatherConnections ::
  "string \<Rightarrow> connection list \<Rightarrow> execution_context \<Rightarrow> js_object \<Rightarrow> js_object" where
  "gatherConnections nodeId [] ctx inputs = inputs"
| "gatherConnections nodeId (c # cs) ctx inputs =
     gatherConnections nodeId cs ctx
       (if targetNodeId c = nodeId
        then (case nodeOutputs ctx (sourceNodeId c) of
                None \<Rightarrow> inputs
              | Some sourceOutputs \<Rightarrow>
                  if truthy (get_prop sourceOutputs (sourcePortId c))
                  then set_prop inputs (targetPortId c) (get_prop sourceOutputs (sourcePortId c))
                  else inputs)
        else inputs)"

definition gatherInputs :: "node \<Rightarrow> workflow \<Rightarrow> execution_context \<Rightarrow> js_object" where
  "gatherInputs n w ctx =
     (let inputs = gatherConnections (node_id n) (connections w) ctx []
      in if node_id n \<in> set (entryPoints w)
         then (case nodeOutputs ctx (node_id n) of
                 None \<Rightarrow> inputs
               | Some initialInputs \<Rightarrow> object_assign inputs initialInputs)
         else inputs)"

text \<open>
  \<open>groupNodesByLevel\<close>. The map \<open>levels\<close> is an association list in insertion
  order; \<open>levels.get(id) || 0\<close> is \<open>level_of\<close>. One pass over the connections, in the
  order the workflow lists them, raises the level of a target that is not yet above its
  source. The nodes are then grouped by level, and the groups are returned by ascending
  level.
\<close>

definition level_of :: "(string \<times> nat) list \<Rightarrow> string \<Rightarrow> nat" where
  "level_of levels nodeId = (case map_of levels nodeId of None \<Rightarrow> 0 | Some l \<Rightarrow> l)"

fun assignLevels :: "connection list \<Rightarrow> (string \<times> nat) list \<Rightarrow> (string \<times> nat) list" where
  "assignLevels [] levels = levels"
| "assignLevels (c # cs) levels =
     assignLevels cs
       (if level_of levels (sourceNodeId c) \<ge> level_of levels (targetNodeId c)
        then AList.update (targetNodeId c) (level_of levels (sourceNodeId c) + 1) levels
        else levels)"

fun groupLevels ::
  "(string \<times> nat) list \<Rightarrow> (nat \<times> string list) list \<Rightarrow> (nat \<times> string list) list" where
  "groupLevels [] levelGroups = levelGroups"
| "groupLevels ((nodeId, level) # rest) levelGroups =
     groupLevels rest
       (case map_of levelGroups level of
          None \<Rightarrow> AList.update level [nodeId] levelGroups
        | Some g \<Rightarrow> AList.update level (g @ [nodeId]) levelGroups)"

definition groupNodesByLevel :: "workflow \<Rightarrow> string list \<Rightarrow> string list list" where
  "groupNodesByLevel w executionOrder =
     (let levels0 = fold (\<lambda>nodeId levels. AList.update nodeId 0 levels) executionOrder [];
          levels = assignLevels (connections w) levels0;
          levelGroups = groupLevels levels [];
          sortedLevels = sort (map fst levelGroups)
      in map (\<lambda>level. case map_of levelGroups level of None \<Rightarrow> [] | Some g \<Rightarrow> g)
             sortedLevels)"

section \<open>WorkflowEngine: runs\<close>

record execution_options =
  opt_inputs :: "js_object option"
  opt_parallel :: bool
  opt_variables :: "js_object option"

text \<open>The result of a run; of the statistics only \<open>nodesExecuted\<close> is kept.\<close>

record workflow_result =
  result_workflowId :: string
  result_status :: workflow_status
  result_outputs :: "(string \<times> js_object) list"
  result_nodesExecuted :: nat

datatype engine_event =
    WorkflowStarted string
  | WorkflowCompleted string workflow_result
  | WorkflowFailed string engine_error

fun event_type :: "engine_event \<Rightarrow> string" where
  "event_type (WorkflowStarted wid) = ''workflow:started''"
| "event_type (WorkflowCompleted wid r) = ''workflow:completed''"
| "event_type (WorkflowFailed wid e) = ''workflow:failed''"

datatype 'a promise_state = Unsettled | Resolved 'a | Rejected engine_error

text \<open>
  An \<open>AbortController\<close>: the flag \<open>signal.aborted\<close>, and whether \<open>executeWorkflow\<close>
  has added its \<open>abort\<close> listener yet.
\<close>

record abort_controller =
  aborted :: bool
  abortListener :: bool

text \<open>
  The engine. A run handle holds a status and references to the context, the controller
  and the promise of the run; the referenced objects are kept in stores under the workflow
  id, so that a change made through the handle is seen by the run and the promise outlives
  the handle. \<open>published\<close> lists the engine's calls of \<open>eventBus.publish\<close>.
\<close>

record engine =
  activeWorkflows :: "string \<rightharpoonup> workflow_status"
  contexts :: "string \<rightharpoonup> execution_context"
  controllers :: "string \<rightharpoonup> abort_controller"
  promises :: "string \<rightharpoonup> workflow_result promise_state"
  published :: "engine_event list"

definition new_engine :: engine where
  "new_engine =
     \<lparr>activeWorkflows = Map.empty, contexts = Map.empty, controllers = Map.empty,
      promises = Map.empty, published = []\<rparr>"

definition publish_event :: "engine_event \<Rightarrow> engine \<Rightarrow> engine" where
  "publish_event ev eng = eng\<lparr>published := published eng @ [ev]\<rparr>"

text \<open>A promise settles once; later calls of \<open>resolve\<close> or \<open>reject\<close> change nothing.\<close>

definition settle :: "string \<Rightarrow> workflow_result promise_state \<Rightarrow> engine \<Rightarrow> engine" where
  "settle wid outcome eng =
     (case promises eng wid of
        Some Unsettled \<Rightarrow> eng\<lparr>promises := (promises eng)(wid \<mapsto> outcome)\<rparr>
      | _ \<Rightarrow> eng)"

definition set_context_status :: "string \<Rightarrow> workflow_status \<Rightarrow> engine \<Rightarrow> engine" where
  "set_context_status wid st eng =
     (case contexts eng wid of
        None \<Rightarrow> eng
      | Some ctx \<Rightarrow> eng\<lparr>contexts := (contexts eng)(wid \<mapsto> ctx\<lparr>ctx_status := st\<rparr>)\<rparr>)"

text \<open>\<open>handleWorkflowError\<close>, taken as one step: with a handle present the statuses
  become \<open>failed\<close>, \<open>workflow:failed\<close> is published and the handle is removed.\<close>

definition handleWorkflowError :: "string \<Rightarrow> engine_error \<Rightarrow> engine \<Rightarrow> engine" where
  "handleWorkflowError wid err eng =
     (case activeWorkflows eng wid of
        None \<Rightarrow> eng
      | Some st \<Rightarrow>
          (publish_event (WorkflowFailed wid err) (set_context_status wid Failed eng))
            \<lparr>activeWorkflows := (activeWorkflows eng)(wid := None)\<rparr>)"

text \<open>
  The \<open>abort\<close> listener of \<open>executeWorkflow\<close>: it rejects with the cancellation error
  only if \<open>signal.aborted\<close> is false when it runs.
\<close>

definition abort_listener :: "string \<Rightarrow> engine \<Rightarrow> engine" where
  "abort_listener wid eng =
     (case controllers eng wid of
        None \<Rightarrow> eng
      | Some c \<Rightarrow>
          if \<not> aborted c
          then settle wid (Rejected Cancelled_Error) (handleWorkflowError wid Cancelled_Error eng)
          else eng)"

text \<open>
  \<open>controller.abort()\<close>: on a signal not yet aborted, the flag is set and then the
  \<open>abort\<close> event is dispatched to the listener, if one was added.
\<close>

definition controller_abort :: "string \<Rightarrow> engine \<Rightarrow> engine" where
  "controller_abort wid eng =
     (case controllers eng wid of
        None \<Rightarrow> eng
      | Some c \<Rightarrow>
          if aborted c then eng
          else (let eng1 = eng\<lparr>controllers := (controllers eng)(wid \<mapsto> c\<lparr>aborted := True\<rparr>)\<rparr>
                in if abortListener c then abort_listener wid eng1 else eng1))"

definition stopWorkflow :: "string \<Rightarrow> engine \<Rightarrow> engine_error option \<times> engine" where
  "stopWorkflow wid eng =
     (case activeWorkflows eng wid of
        None \<Rightarrow> (Some (NoActiveWorkflow wid), eng)
      | Some st \<Rightarrow>
          (None,
           publish_event (WorkflowFailed wid Cancelled_Error)
             (controller_abort wid
                (set_context_status wid Cancelled
                   (eng\<lparr>activeWorkflows := (activeWorkflows eng)(wid \<mapsto> Cancelled)\<rparr>)))))"

definition getWorkflowStatus :: "string \<Rightarrow> engine \<Rightarrow> workflow_status" where
  "getWorkflowStatus wid eng =
     (case activeWorkflows eng wid of None \<Rightarrow> Completed | Some st \<Rightarrow> st)"

text \<open>\<open>createWorkflowResult\<close>: the outputs of the exit nodes, and the status read from
  the context.\<close>

definition createWorkflowResult ::
  "workflow \<Rightarrow> execution_context \<Rightarrow> nat \<Rightarrow> workflow_result" where
  "createWorkflowResult w ctx executed =
     \<lparr>result_workflowId = workflow_id w,
      result_status = ctx_status ctx,
      result_outputs =
        fold (\<lambda>exitNodeId outputs.
                case nodeOutputs ctx exitNodeId of
                  None \<Rightarrow> outputs
                | Some nodeOuts \<Rightarrow> AList.update exitNodeId nodeOuts outputs)
             (exitPoints w) [],
      result_nodesExecuted = executed\<rparr>"

text \<open>
  The node executor is a parameter of the engine: \<open>executeNode node inputs context\<close>
  returns the outputs or the error it throws.
\<close>

type_synonym node_executor =
  "node \<Rightarrow> js_object \<Rightarrow> execution_context \<Rightarrow> engine_error + js_object"

text \<open>
  Sequential execution. The flag is \<open>signal.aborted\<close>; nothing changes it while the loop
  runs, so it is the same at every iteration. A node id without a node is skipped.
\<close>

fun runSequential ::
  "node_executor \<Rightarrow> workflow \<Rightarrow> string list \<Rightarrow> bool \<Rightarrow> execution_context \<times> nat
     \<Rightarrow> engine_error + execution_context \<times> nat" where
  "runSequential executeNode w [] ab (ctx, executed) = Inr (ctx, executed)"
| "runSequential executeNode w (nodeId # rest) ab (ctx, executed) =
     (if ab then Inr (ctx, executed)
      else (case find (\<lambda>n. node_id n = nodeId) (nodes w) of
              None \<Rightarrow> runSequential executeNode w rest ab (ctx, executed)
            | Some n \<Rightarrow>
                (case executeNode n (gatherInputs n w ctx) ctx of
                   Inl e \<Rightarrow> Inl e
                 | Inr outputs \<Rightarrow>
                     runSequential executeNode w rest ab
                       (ctx\<lparr>nodeOutputs := (nodeOutputs ctx)(nodeId \<mapsto> outputs)\<rparr>,
                        Suc executed))))"

text \<open>
  Parallel execution. The callbacks of one level all start before any node executor
  returns, so every node of the level gathers its inputs from the context as the level
  finds it; the executors then run and store their outputs.
\<close>

fun runLevelNodes ::
  "node_executor \<Rightarrow> (node \<times> js_object) list \<Rightarrow> execution_context \<times> nat
     \<Rightarrow> engine_error + execution_context \<times> nat" where
  "runLevelNodes executeNode [] (ctx, executed) = Inr (ctx, executed)"
| "runLevelNodes executeNode ((n, inputs) # rest) (ctx, executed) =
     (case executeNode n inputs ctx of
        Inl e \<Rightarrow> Inl e
      | Inr outputs \<Rightarrow>
          runLevelNodes executeNode rest
            (ctx\<lparr>nodeOutputs := (nodeOutputs ctx)(node_id n \<mapsto> outputs)\<rparr>, Suc executed))"

definition startLevel ::
  "workflow \<Rightarrow> execution_context \<Rightarrow> string list \<Rightarrow> (node \<times> js_object) list" where
  "startLevel w ctx level =
     List.map_filter
       (\<lambda>nodeId. case find (\<lambda>n. node_id n = nodeId) (nodes w) of
                   None \<Rightarrow> None
                 | Some n \<Rightarrow> Some (n, gatherInputs n w ctx))
       level"

fun runParallel ::
  "node_executor \<Rightarrow> workflow \<Rightarrow> string list list \<Rightarrow> bool \<Rightarrow> execution_context \<times> nat
     \<Rightarrow> engine_error + execution_context \<times> nat" where
  "runParallel executeNode w [] ab (ctx, executed) = Inr (ctx, executed)"
| "runParallel executeNode w (level # rest) ab (ctx, executed) =
     (if ab then Inr (ctx, executed)
      else (case runLevelNodes executeNode (startLevel w ctx level) (ctx, executed) of
              Inl e \<Rightarrow> Inl e
            | Inr st \<Rightarrow> runParallel executeNode w rest ab st))"

text \<open>
  \<open>executeWorkflow\<close> up to its first \<open>await\<close>: the promise, the controller, the context
  and the handle are created and \<open>workflow:started\<close> is published. No timer is armed.
\<close>

definition executeWorkflow_start :: "workflow \<Rightarrow> execution_options \<Rightarrow> engine \<Rightarrow> engine" where
  "executeWorkflow_start w opts eng =
     publish_event (WorkflowStarted (workflow_id w))
       (eng\<lparr>promises := (promises eng)(workflow_id w \<mapsto> Unsettled),
            controllers := (controllers eng)
              (workflow_id w \<mapsto> \<lparr>aborted = False, abortListener = False\<rparr>),
            contexts := (contexts eng)
              (workflow_id w \<mapsto>
                 \<lparr>ctx_workflowId = workflow_id w, nodeOutputs = Map.empty,
                  ctx_status = Running,
                  ctx_variables = (case opt_variables opts of None \<Rightarrow> [] | Some v \<Rightarrow> v)\<rparr>),
            activeWorkflows := (activeWorkflows eng)(workflow_id w \<mapsto> Running)\<rparr>)"

text \<open>The \<open>catch\<close> block of \<open>executeWorkflow\<close>.\<close>

definition fail_run :: "string \<Rightarrow> engine_error \<Rightarrow> engine \<Rightarrow> engine" where
  "fail_run wid err eng = settle wid (Rejected err) (handleWorkflowError wid err eng)"

text \<open>Seeding: with \<open>options.inputs\<close> given, every entry node's output slot is set to it.\<close>

definition seedInputs :: "workflow \<Rightarrow> execution_options \<Rightarrow> execution_context \<Rightarrow> execution_context" where
  "seedInputs w opts ctx =
     (case opt_inputs opts of
        None \<Rightarrow> ctx
      | Some ins \<Rightarrow>
          fold (\<lambda>entryNodeId c. c\<lparr>nodeOutputs := (nodeOutputs c)(entryNodeId \<mapsto> ins)\<rparr>)
               (entryPoints w) ctx)"

text \<open>The end of a run that was not aborted: result, status of the handle, event, removal
  of the handle, resolution of the promise.\<close>

definition complete_run :: "workflow \<Rightarrow> execution_context \<Rightarrow> nat \<Rightarrow> engine \<Rightarrow> engine" where
  "complete_run w ctx executed eng =
     (let wid = workflow_id w;
          res = createWorkflowResult w ctx executed;
          eng1 = (case activeWorkflows eng wid of
                    None \<Rightarrow> eng
                  | Some st \<Rightarrow> eng\<lparr>activeWorkflows := (activeWorkflows eng)(wid \<mapsto> Completed)\<rparr>);
          eng2 = publish_event (WorkflowCompleted wid res) eng1;
          eng3 = eng2\<lparr>activeWorkflows := (activeWorkflows eng2)(wid := None)\<rparr>
      in settle wid (Resolved res) eng3)"

text \<open>
  The rest of \<open>executeWorkflow\<close>, for a run that has been started, with no other call
  of the engine in between: sort, listener, seeding, execution, settlement. In parallel
  mode a failing node aborts the controller before the error reaches the \<open>catch\<close> block.
\<close>

definition executeWorkflow_run ::
  "node_executor \<Rightarrow> workflow \<Rightarrow> execution_options \<Rightarrow> engine \<Rightarrow> engine" where
  "executeWorkflow_run executeNode w opts eng =
     (let wid = workflow_id w in
      case (contexts eng wid, controllers eng wid) of
        (Some context, Some controller) \<Rightarrow>
          (case topologicalSort w of
             Inl e \<Rightarrow> fail_run wid e eng
           | Inr executionOrder \<Rightarrow>
               (let eng1 = eng\<lparr>controllers :=
                                (controllers eng)(wid \<mapsto> controller\<lparr>abortListener := True\<rparr>)\<rparr>;
                    ctx0 = seedInputs w opts context;
                    ran = (if opt_parallel opts
                           then runParallel executeNode w
                                  (groupNodesByLevel w executionOrder) (aborted controller) (ctx0, 0)
                           else runSequential executeNode w executionOrder
                                  (aborted controller) (ctx0, 0))
                in case ran of
                     Inl e \<Rightarrow>
                       fail_run wid e
                         (if opt_parallel opts then controller_abort wid eng1 else eng1)
                   | Inr (ctx, executed) \<Rightarrow>
                       (let eng2 = eng1\<lparr>contexts := (contexts eng1)(wid \<mapsto> ctx)\<rparr>
                        in if aborted controller then eng2
                           else complete_run w ctx executed eng2)))
      | _ \<Rightarrow> eng)"

definition executeWorkflow ::
  "node_executor \<Rightarrow> workflow \<Rightarrow> execution_options \<Rightarrow> engine \<Rightarrow> engine" where
  "executeWorkflow executeNode w opts eng =
     executeWorkflow_run executeNode w opts (executeWorkflow_start w opts eng)"

section \<open>Example workflows and executors\<close>

text \<open>Examples: the default options; executors for the linear workflow (\<open>const\<close> yields
  7, \<open>double\<close> doubles, \<open>sink\<close> passes on); an executor whose \<open>const\<close> node yields a
  given value and whose other nodes return the inputs they were given.\<close>

definition default_options :: execution_options where
  "default_options = \<lparr>opt_inputs = None, opt_parallel = False, opt_variables = None\<rparr>"

definition linear_executor :: node_executor where
  "linear_executor n inputs ctx =
     (if node_type n = ''const'' then Inr [(''v'', Num 7)]
      else if node_type n = ''double''
      then (case get_prop inputs ''v'' of
              Num k \<Rightarrow> Inr [(''v'', Num (2 * k))]
            | _ \<Rightarrow> Inl (NodeExecutionError ''double: input v is not a number''))
      else Inr [(''v'', get_prop inputs ''v'')])"

text \<open>An engine with one run of the linear workflow in progress, at its first
  \<open>await\<close>.\<close>

definition started_engine :: engine where
  "started_engine = executeWorkflow_start linear_workflow default_options new_engine"

definition echo_executor :: "jsval \<Rightarrow> node_executor" where
  "echo_executor constant n inputs ctx =
     (if node_type n = ''const'' then Inr [(''v'', constant)]
      else Inr [(''v'', Obj inputs)])"

definition node_B :: node where
  "node_B = \<lparr>node_id = ''B'', node_type = ''double''\<rparr>"

text \<open>A workflow whose entry node \<open>B\<close> also has an incoming connection, run with
  seed inputs.\<close>

definition seeded_workflow :: workflow where
  "seeded_workflow =
     \<lparr>workflow_id = ''seeded'',
      nodes = [\<lparr>node_id = ''A'', node_type = ''const''\<rparr>,
               \<lparr>node_id = ''B'', node_type = ''sink''\<rparr>],
      connections = [mk_connection ''c1'' ''A'' ''v'' ''B'' ''v''],
      entryPoints = [''A'', ''B''], exitPoints = [''B'']\<rparr>"

definition seed_options :: execution_options where
  "seed_options =
     \<lparr>opt_inputs = Some [(''v'', Str ''seed''), (''w'', Str ''extra'')],
      opt_parallel = False, opt_variables = None\<rparr>"

text \<open>The chain \<open>A \<rightarrow> B \<rightarrow> C\<close> with its two connections listed in the other order.\<close>

definition reordered_chain :: workflow where
  "reordered_chain =
     \<lparr>workflow_id = ''chain'',
      nodes = [\<lparr>node_id = ''A'', node_type = ''const''\<rparr>,
               \<lparr>node_id = ''B'', node_type = ''double''\<rparr>,
               \<lparr>node_id = ''C'', node_type = ''sink''\<rparr>],
      connections =
        [mk_connection ''c2'' ''B'' ''v'' ''C'' ''v'',
         mk_connection ''c1'' ''A'' ''v'' ''B'' ''v''],
      entryPoints = [''A''], exitPoints = [''C'']\<rparr>"


section \<open>EventBus\<close>

text \<open>
  The options a caller passes to \<open>subscribe\<close>; every field is optional.
\<close>

record subscription_options =
  opt_priority :: "int option"
  opt_once :: "bool option"
  opt_id :: "string option"
  opt_async :: "bool option"

text \<open>
  A callback is user code. It is modelled by what it does when it is called with the
  event data: whether it throws, and which subscriptions it registers on the bus before
  it returns or throws. Callbacks run to completion when they are started.
\<close>

datatype callback =
  Callback "jsval \<Rightarrow> bool \<times> (string \<times> callback \<times> subscription_options) list"

fun run_callback ::
  "callback \<Rightarrow> jsval \<Rightarrow> bool \<times> (string \<times> callback \<times> subscription_options) list" where
  "run_callback (Callback f) d = f d"

text \<open>A subscription id is the one the caller gave or one the bus generated; generated
  ids are numbered, standing for the time stamp and random suffix of the source.\<close>

datatype subscription_id = Given string | Generated nat

text \<open>The \<open>SubscriptionInfo\<close> stored by the bus, with the defaults filled in.\<close>

record subscription_info =
  sub_eventType :: string
  sub_callback :: callback
  sub_priority :: int
  sub_once :: bool
  sub_id :: subscription_id
  sub_async :: bool

text \<open>
  The bus: for each event type the set of its subscriptions, in insertion order (a
  JavaScript \<open>Set\<close> iterates in insertion order). \<open>invocations\<close> records every callback
  invocation, oldest first, with the event type it was invoked for; \<open>generated\<close> counts
  the ids generated so far.
\<close>

record event_bus =
  subscriptions :: "string \<rightharpoonup> subscription_info list"
  invocations :: "(string \<times> subscription_info) list"
  generated :: nat

definition new_bus :: event_bus where
  "new_bus = \<lparr>subscriptions = Map.empty, invocations = [], generated = 0\<rparr>"

definition SYSTEM_ERROR :: string where
  "SYSTEM_ERROR = ''system:error''"

definition subscribersOf :: "event_bus \<Rightarrow> string \<Rightarrow> subscription_info list" where
  "subscribersOf bus eventType =
     (case subscriptions bus eventType of None \<Rightarrow> [] | Some subs \<Rightarrow> subs)"

definition hasSubscribers :: "event_bus \<Rightarrow> string \<Rightarrow> bool" where
  "hasSubscribers bus eventType =
     (case subscriptions bus eventType of None \<Rightarrow> False | Some subs \<Rightarrow> length subs > 0)"

definition getSubscriberCount :: "event_bus \<Rightarrow> string \<Rightarrow> nat" where
  "getSubscriberCount bus eventType =
     (case subscriptions bus eventType of None \<Rightarrow> 0 | Some subs \<Rightarrow> length subs)"

text \<open>\<open>subscribe\<close> returns the id of the new subscription and the bus. An empty id is
  falsy, so it is replaced by a generated one like a missing id.\<close>

definition subscribe ::
  "string \<Rightarrow> callback \<Rightarrow> subscription_options \<Rightarrow> event_bus \<Rightarrow> subscription_id \<times> event_bus" where
  "subscribe eventType cb options bus =
     (let given = (case opt_id options of None \<Rightarrow> False | Some i \<Rightarrow> i \<noteq> []);
          newId = (case opt_id options of
                     None \<Rightarrow> Generated (generated bus)
                   | Some i \<Rightarrow> if i \<noteq> [] then Given i else Generated (generated bus));
          info = \<lparr>sub_eventType = eventType, sub_callback = cb,
                  sub_priority = (case opt_priority options of None \<Rightarrow> 0 | Some p \<Rightarrow> p),
                  sub_once = (case opt_once options of None \<Rightarrow> False | Some b \<Rightarrow> b),
                  sub_id = newId,
                  sub_async = (opt_async options \<noteq> Some False)\<rparr>
      in (newId,
          bus\<lparr>subscriptions :=
                 (subscriptions bus)(eventType \<mapsto> subscribersOf bus eventType @ [info]),
              generated := (if given then generated bus else Suc (generated bus))\<rparr>))"

text \<open>\<open>unsubscribe\<close>: the first subscription with the handle's id leaves the set of the
  handle's event type; an empty set is deleted from the table.\<close>

fun remove_first :: "('a \<Rightarrow> bool) \<Rightarrow> 'a list \<Rightarrow> 'a list" where
  "remove_first P [] = []"
| "remove_first P (x # xs) = (if P x then xs else x # remove_first P xs)"

definition unsubscribe :: "string \<times> subscription_id \<Rightarrow> event_bus \<Rightarrow> event_bus" where
  "unsubscribe handle bus =
     (case subscriptions bus (fst handle) of
        None \<Rightarrow> bus
      | Some subs \<Rightarrow>
          (let subs' = remove_first (\<lambda>s. sub_id s = snd handle) subs
           in if subs' = []
              then bus\<lparr>subscriptions := (subscriptions bus)(fst handle := None)\<rparr>
              else bus\<lparr>subscriptions := (subscriptions bus)(fst handle \<mapsto> subs')\<rparr>))"

text \<open>The payload of the \<open>system:error\<close> event published for a failing handler.\<close>

definition error_payload :: "string \<Rightarrow> jsval \<Rightarrow> jsval" where
  "error_payload eventType d =
     Obj [(''message'', Str (''Error in event handler for '' @ eventType)),
          (''error'', Str ''Error''),
          (''eventType'', Str eventType),
          (''data'', d)]"

text \<open>
  \<open>publish\<close>. \<open>publish_callbacks\<close> is the part that runs before the first
  continuation: the subscribers are snapshot and sorted by descending priority
  (\<open>Array.prototype.sort\<close> is stable), and \<open>deliver\<close> starts each callback in turn. A
  callback that returns has its subscription noted for removal if it is a once
  subscription; a callback that throws causes a nested \<open>publish\<close> of \<open>system:error\<close>,
  unless the event is \<open>system:error\<close> itself. The removals, those of the nested
  publishes included, follow the \<open>await\<close>: they are returned as handles and carried out
  by \<open>publish\<close> after all callbacks have been started.
\<close>

function publish_callbacks ::
    "string \<Rightarrow> jsval \<Rightarrow> event_bus \<Rightarrow> event_bus \<times> (string \<times> subscription_id) list"
  and deliver ::
    "string \<Rightarrow> jsval \<Rightarrow> subscription_info list
       \<Rightarrow> event_bus \<times> (string \<times> subscription_id) list
       \<Rightarrow> event_bus \<times> (string \<times> subscription_id) list"
where
  "publish_callbacks eventType d bus =
     (case subscriptions bus eventType of
        None \<Rightarrow> (bus, [])
      | Some subscribers \<Rightarrow>
          if length subscribers = 0 then (bus, [])
          else deliver eventType d
                 (sort_key (\<lambda>s. - sub_priority s) subscribers) (bus, []))"
| "deliver eventType d [] st = st"
| "deliver eventType d (sub # rest) (bus, toRemove) =
     (let bus1 = fold (\<lambda>(et, cb, options) b. snd (subscribe et cb options b))
                   (snd (run_callback (sub_callback sub) d))
                   (bus\<lparr>invocations := invocations bus @ [(eventType, sub)]\<rparr>)
      in if \<not> fst (run_callback (sub_callback sub) d)
         then deliver eventType d rest
                (bus1, if sub_once sub then toRemove @ [(sub_eventType sub, sub_id sub)]
                       else toRemove)
         else if eventType \<noteq> SYSTEM_ERROR
         then deliver eventType d rest
                (fst (publish_callbacks SYSTEM_ERROR (error_payload eventType d) bus1),
                 toRemove @ snd (publish_callbacks SYSTEM_ERROR (error_payload eventType d) bus1))
         else deliver eventType d rest (bus1, toRemove))"
  by pat_completeness auto
termination
  by (relation "inv_image (less_than <*lex*> less_than <*lex*> less_than)
        (\<lambda>x. case x of
           Inl (et, d, bus) \<Rightarrow> (if et = SYSTEM_ERROR then 0 else 1, 1, 0)
         | Inr (et, d, subs, st) \<Rightarrow> (if et = SYSTEM_ERROR then 0 else (1::nat), 0::nat, length subs))")
     auto

declare publish_callbacks.simps [simp del]

definition publish :: "string \<Rightarrow> jsval \<Rightarrow> event_bus \<Rightarrow> event_bus" where
  "publish eventType d bus =
     (case publish_callbacks eventType d bus of
        (bus', toRemove) \<Rightarrow> fold unsubscribe toRemove bus')"

text \<open>The callbacks started for an event type between two states of the bus.\<close>

definition startedFor :: "string \<Rightarrow> event_bus \<Rightarrow> event_bus \<Rightarrow> subscription_info list" where
  "startedFor eventType bus bus' =
     map snd (filter (\<lambda>e. fst e = eventType) (drop (length (invocations bus)) (invocations bus')))"

section \<open>Example subscribers\<close>

text \<open>A callback that throws, one that returns, and subscription options.\<close>

definition throwing_callback :: callback where
  "throwing_callback = Callback (\<lambda>d. (True, []))"

definition quiet_callback :: callback where
  "quiet_callback = Callback (\<lambda>d. (False, []))"

definition once_options :: subscription_options where
  "once_options = \<lparr>opt_priority = None, opt_once = Some True, opt_id = None, opt_async = None\<rparr>"

definition no_options :: subscription_options where
  "no_options = \<lparr>opt_priority = None, opt_once = None, opt_id = None, opt_async = None\<rparr>"

text \<open>A callback that subscribes another (quiet) subscriber to an event.\<close>

definition subscribing_callback :: "string \<Rightarrow> callback" where
  "subscribing_callback et = Callback (\<lambda>d. (False, [(et, quiet_callback, no_options)]))"

section \<open>Registration of workflows\<close>

text \<open>
  C10. Registering a workflow whose id is already in the table throws the
  "already registered" error and leaves the table as it was, so \<open>hasWorkflow\<close> answers
  the same for every id; registering a workflow whose id is not in the table succeeds
  and \<open>hasWorkflow\<close> of that id is true afterwards.
\<close>

theorem registerWorkflow_spec:
  "(hasWorkflow p (workflow_id w) \<longrightarrow>
      (\<exists>e. registerWorkflow w p = (Some e, p)
           \<and> propagator_error_message e
               = ''Workflow with ID '' @ workflow_id w @ '' is already registered'')
      \<and> (\<forall>wid. hasWorkflow (snd (registerWorkflow w p)) wid = hasWorkflow p wid))
   \<and> (\<not> hasWorkflow p (workflow_id w) \<longrightarrow>
        fst (registerWorkflow w p) = None
        \<and> hasWorkflow (snd (registerWorkflow w p)) (workflow_id w))"
  by (simp add: registerWorkflow_def hasWorkflow_def)

theorem registerWorkflow_spec_witness:
  "\<not> hasWorkflow new_propagator (workflow_id circular_workflow)
   \<and> fst (registerWorkflow circular_workflow new_propagator) = None
   \<and> hasWorkflow (snd (registerWorkflow circular_workflow new_propagator))
        (workflow_id circular_workflow)
   \<and> (\<exists>e. registerWorkflow circular_workflow
              (snd (registerWorkflow circular_workflow new_propagator))
            = (Some e, snd (registerWorkflow circular_workflow new_propagator))
          \<and> propagator_error_message e
              = ''Workflow with ID circular-workflow is already registered'')"
proof -
  have fresh: "\<not> hasWorkflow new_propagator (workflow_id circular_workflow)"
    by (simp add: hasWorkflow_def new_propagator_def)
  have wid: "workflow_id circular_workflow = ''circular-workflow''"
    by (simp add: circular_workflow_def)
  from registerWorkflow_spec [of new_propagator circular_workflow] fresh
  have first: "fst (registerWorkflow circular_workflow new_propagator) = None"
    and present: "hasWorkflow (snd (registerWorkflow circular_workflow new_propagator))
                    (workflow_id circular_workflow)"
    by blast+
  from registerWorkflow_spec
         [of "snd (registerWorkflow circular_workflow new_propagator)" circular_workflow]
       present
  have "\<exists>e. registerWorkflow circular_workflow
              (snd (registerWorkflow circular_workflow new_propagator))
            = (Some e, snd (registerWorkflow circular_workflow new_propagator))
          \<and> propagator_error_message e
              = ''Workflow with ID '' @ workflow_id circular_workflow
                  @ '' is already registered''"
    by blast
  then show ?thesis using fresh first present by (simp add: wid)
qed

section \<open>Chained propagation\<close>






declare propagateConnections.simps(2) [simp del]
declare propagateEventToConnectedNodes.simps(2) [simp del]

lemma nodeEventType_inj [simp]: "nodeEventType a et = nodeEventType b et \<longleftrightarrow> a = b"
  by (simp add: nodeEventType_def)

lemma deliveredTo_append [simp]:
  "deliveredTo t et (xs @ ys) = deliveredTo t et xs + deliveredTo t et ys"
  by (simp add: deliveredTo_def)

























text \<open>
  The condition on the suspensions is needed. If the code that runs at each \<open>await\<close>
  starts a propagation of its own, the visited set is cleared under the suspended call:
  on the two-node cycle the call then goes round for ever, however deep it may nest.
\<close>

lemma overlapping_round:
  "visitedNodes p = {} \<Longrightarrow> filters p = [] \<Longrightarrow> x = ''a'' \<or> x = ''b''
     \<Longrightarrow> propagateEventToConnectedNodes overlapping depth circular_workflow x et d
           chain_options p = None"
proof (induction depth arbitrary: p x d)
  case 0
  then show ?case by simp
next
  case (Suc depth)
  have next_a: "propagateEventToConnectedNodes overlapping depth circular_workflow ''a'' et d' chain_options
          (overlapping ev q) = None" if "filters q = []" for d' ev q
    using that by (intro Suc.IH) (simp_all add: overlapping_def)
  have next_b: "propagateEventToConnectedNodes overlapping depth circular_workflow ''b'' et d' chain_options
          (overlapping ev q) = None" if "filters q = []" for d' ev q
    using that by (intro Suc.IH) (simp_all add: overlapping_def)
  from Suc.prems(3) show ?case
  proof
    assume "x = ''a''"
    with Suc.prems(1,2) show ?thesis
      by (simp add: propagateEventToConnectedNodes.simps propagateConnections.simps(2)
            circular_workflow_def chain_options_def passesFilters_def edgeEventData_def
            bus_publish_def next_b[unfolded circular_workflow_def chain_options_def])
  next
    assume "x = ''b''"
    with Suc.prems(1,2) show ?thesis
      by (simp add: propagateEventToConnectedNodes.simps propagateConnections.simps(2)
            circular_workflow_def chain_options_def passesFilters_def edgeEventData_def
            bus_publish_def next_a[unfolded circular_workflow_def chain_options_def])
  qed
qed

lemma overlapping_call_never_returns:
  "propagateEvent overlapping depth ''circular-workflow'' ''a'' ''ping'' [] chain_options
     (registered circular_workflow) = None"
proof -
  have "workflows (registered circular_workflow) ''circular-workflow'' = Some circular_workflow"
    "filters (registered circular_workflow) = []"
    by (simp_all add: registered_def registerWorkflow_def hasWorkflow_def new_propagator_def
          circular_workflow_def)
  then show ?thesis
    by (simp add: propagateEvent_def overlapping_round)
qed


section \<open>Topological sort\<close>

lemma getNodeDependencies_feeds: "d \<in> set (getNodeDependencies n w) \<longleftrightarrow> (d, n) \<in> feeds w"
  by (auto simp: getNodeDependencies_def feeds_def)

lemma respects_iff:
  "respectsDependencies w order \<longleftrightarrow>
     (\<forall>i < length order. set (getNodeDependencies (order ! i) w) \<subseteq> set (take i order))"
  unfolding respectsDependencies_def getNodeDependencies_def
  by (rule iffI; fastforce)

lemma respects_Nil [simp]: "respectsDependencies w []"
  by (simp add: respectsDependencies_def)

lemma respects_snoc:
  "respectsDependencies w (xs @ [n]) \<longleftrightarrow>
     respectsDependencies w xs \<and> set (getNodeDependencies n w) \<subseteq> set xs"
proof -
  have "(\<forall>i < Suc (length xs). set (getNodeDependencies ((xs @ [n]) ! i) w) \<subseteq> set (take i (xs @ [n])))
        \<longleftrightarrow> (\<forall>i < length xs. set (getNodeDependencies (xs ! i) w) \<subseteq> set (take i xs))
            \<and> set (getNodeDependencies n w) \<subseteq> set xs"
    by (auto simp: less_Suc_eq nth_append)
  then show ?thesis by (simp add: respects_iff)
qed

lemma visit_ok:
  "visit w nodeId s = Inr s' \<Longrightarrow> sort_inv w s
     \<Longrightarrow> sort_inv w s' \<and> nodeId \<in> visited s' \<and> visited s \<subseteq> visited s' \<and> temp s' = temp s"
  "visitAll w ids s = Inr s' \<Longrightarrow> sort_inv w s
     \<Longrightarrow> sort_inv w s' \<and> set ids \<subseteq> visited s' \<and> visited s \<subseteq> visited s' \<and> temp s' = temp s"
proof (induction w nodeId s and w ids s arbitrary: s' and s' rule: visit_visitAll.induct)
  case (1 w nodeId s)
  show ?case
  proof (cases "nodeId \<in> temp s \<or> nodeId \<in> visited s")
    case True
    then show ?thesis using 1(2,3) by (auto simp: visit.simps split: if_splits)
  next
    case False
    let ?s0 = "s\<lparr>temp := insert nodeId (temp s)\<rparr>"
    from False obtain s'' where
      all: "visitAll w (getNodeDependencies nodeId w) ?s0 = Inr s''"
      and s': "s' = s''\<lparr>temp := temp s'' - {nodeId}, visited := insert nodeId (visited s''),
                        result := result s'' @ [nodeId]\<rparr>"
      using 1(2) by (auto simp: visit.simps split: sum.splits)
    have inv0: "sort_inv w ?s0" using 1(3) False by (auto simp: sort_inv_def)
    from 1(1)[OF _ _ all inv0] False have
      inv: "sort_inv w s''" and deps: "set (getNodeDependencies nodeId w) \<subseteq> visited s''"
      and mono: "visited s \<subseteq> visited s''" and tmp: "temp s'' = insert nodeId (temp s)"
      by auto
    have fresh: "nodeId \<notin> visited s''" using inv tmp by (auto simp: sort_inv_def)
    have "sort_inv w s'"
      using inv deps fresh False tmp unfolding s' sort_inv_def
      by (auto simp: respects_snoc)
    then show ?thesis using mono tmp False by (auto simp: s')
  qed
next
  case (2 w s)
  then show ?case by simp
next
  case (3 w depId ids s)
  from 3(3) obtain s1 where v: "visit w depId s = Inr s1" and r: "visitAll w ids s1 = Inr s'"
    by (auto split: sum.splits)
  from 3(1)[OF v 3(4)] have a: "sort_inv w s1" "depId \<in> visited s1" "visited s \<subseteq> visited s1"
      "temp s1 = temp s" by auto
  from 3(2)[OF v r a(1)] a show ?case by auto
qed

lemma visit_error:
  "visit w nodeId s = Inl e \<Longrightarrow> sort_inv w s \<Longrightarrow> \<forall>t \<in> temp s. (nodeId, t) \<in> (feeds w)\<^sup>+
     \<Longrightarrow> \<exists>m. e = CycleError m \<and> (m, m) \<in> (feeds w)\<^sup>+"
  "visitAll w ids s = Inl e \<Longrightarrow> sort_inv w s \<Longrightarrow> \<forall>d \<in> set ids. \<forall>t \<in> temp s. (d, t) \<in> (feeds w)\<^sup>+
     \<Longrightarrow> \<exists>m. e = CycleError m \<and> (m, m) \<in> (feeds w)\<^sup>+"
proof (induction w nodeId s and w ids s rule: visit_visitAll.induct)
  case (1 w nodeId s)
  show ?case
  proof (cases "nodeId \<in> temp s")
    case True
    then show ?thesis using 1(2,4) by (auto simp: visit.simps)
  next
    case False
    let ?s0 = "s\<lparr>temp := insert nodeId (temp s)\<rparr>"
    from False 1(2) have nv: "nodeId \<notin> visited s"
      and all: "visitAll w (getNodeDependencies nodeId w) ?s0 = Inl e"
      by (auto simp: visit.simps split: if_splits sum.splits)
    have inv0: "sort_inv w ?s0" using 1(3) nv by (auto simp: sort_inv_def)
    have path: "\<forall>d \<in> set (getNodeDependencies nodeId w). \<forall>t \<in> temp ?s0. (d, t) \<in> (feeds w)\<^sup>+"
    proof (intro ballI)
      fix d t assume d: "d \<in> set (getNodeDependencies nodeId w)" and t: "t \<in> temp ?s0"
      from d have dn: "(d, nodeId) \<in> feeds w" by (simp add: getNodeDependencies_feeds)
      show "(d, t) \<in> (feeds w)\<^sup>+"
      proof (cases "t = nodeId")
        case True then show ?thesis using dn by auto
      next
        case False
        then have "(nodeId, t) \<in> (feeds w)\<^sup>+" using t 1(4) by auto
        then show ?thesis using dn by (rule trancl_into_trancl2[rotated])
      qed
    qed
    from 1(1)[OF False nv all inv0 path] show ?thesis .
  qed
next
  case (2 w s)
  then show ?case by simp
next
  case (3 w depId ids s)
  show ?case
  proof (cases "visit w depId s")
    case (Inl e')
    then have "e' = e" using 3(3) by simp
    with Inl 3(1) 3(4,5) show ?thesis by auto
  next
    case (Inr s1)
    then have r: "visitAll w ids s1 = Inl e" using 3(3) by simp
    from visit_ok(1)[OF Inr 3(4)] have "sort_inv w s1" "temp s1 = temp s" by auto
    with 3(2)[OF Inr r] 3(5) show ?thesis by auto
  qed
qed

lemma visitNodes_ok:
  "visitNodes w ns s = Inr s' \<Longrightarrow> sort_inv w s \<Longrightarrow> temp s = {}
     \<Longrightarrow> sort_inv w s' \<and> node_id ` set ns \<subseteq> visited s' \<and> visited s \<subseteq> visited s' \<and> temp s' = {}"
proof (induction ns arbitrary: s)
  case Nil
  then show ?case by simp
next
  case (Cons n ns)
  show ?case
  proof (cases "node_id n \<in> visited s")
    case True
    with Cons.prems have "visitNodes w ns s = Inr s'" by simp
    from Cons.IH[OF this Cons.prems(2,3)] True show ?thesis by auto
  next
    case False
    with Cons.prems obtain s1 where v: "visit w (node_id n) s = Inr s1"
      and r: "visitNodes w ns s1 = Inr s'"
      by (auto split: sum.splits)
    from visit_ok(1)[OF v Cons.prems(2)] Cons.prems(3)
    have a: "sort_inv w s1" "node_id n \<in> visited s1" "visited s \<subseteq> visited s1" "temp s1 = {}"
      by auto
    from Cons.IH[OF r a(1) a(4)] a show ?thesis by auto
  qed
qed

lemma visitNodes_error:
  "visitNodes w ns s = Inl e \<Longrightarrow> sort_inv w s \<Longrightarrow> temp s = {}
     \<Longrightarrow> \<exists>m. e = CycleError m \<and> (m, m) \<in> (feeds w)\<^sup>+"
proof (induction ns arbitrary: s)
  case Nil
  then show ?case by simp
next
  case (Cons n ns)
  show ?case
  proof (cases "node_id n \<in> visited s")
    case True
    with Cons.prems have "visitNodes w ns s = Inl e" by simp
    from Cons.IH[OF this Cons.prems(2,3)] show ?thesis .
  next
    case False
    show ?thesis
    proof (cases "visit w (node_id n) s")
      case (Inl e')
      with False Cons.prems(1) have "e' = e" by simp
      with Inl visit_error(1)[of w "node_id n" s e] Cons.prems(2,3) show ?thesis by simp
    next
      case (Inr s1)
      with False Cons.prems(1) have r: "visitNodes w ns s1 = Inl e" by simp
      from visit_ok(1)[OF Inr Cons.prems(2)] Cons.prems(3)
      have "sort_inv w s1" "temp s1 = {}" by auto
      from Cons.IH[OF r this] show ?thesis .
    qed
  qed
qed

lemma sort_inv_init: "sort_inv w \<lparr>result = [], visited = {}, temp = {}\<rparr>"
  by (simp add: sort_inv_def)

lemma topologicalSort_ok:
  assumes "topologicalSort w = Inr order"
  shows "distinct order" "set (entryPoints w) \<union> node_id ` set (nodes w) \<subseteq> set order"
    "respectsDependencies w order"
proof -
  let ?s0 = "\<lparr>result = [], visited = {}, temp = {}\<rparr>"
  from assms obtain s1 s2 where
    e: "visitAll w (entryPoints w) ?s0 = Inr s1" and
    n: "visitNodes w (nodes w) s1 = Inr s2" and o: "order = result s2"
    by (auto simp: topologicalSort_def split: sum.splits)
  from visit_ok(2)[OF e sort_inv_init]
  have a: "sort_inv w s1" "set (entryPoints w) \<subseteq> visited s1" "temp s1 = {}" by auto
  from visitNodes_ok[OF n a(1) a(3)]
  have b: "sort_inv w s2" "node_id ` set (nodes w) \<subseteq> visited s2" "visited s1 \<subseteq> visited s2"
    by auto
  show "distinct order" "respectsDependencies w order"
    using b(1) o by (auto simp: sort_inv_def)
  show "set (entryPoints w) \<union> node_id ` set (nodes w) \<subseteq> set order"
    using a(2) b o by (auto simp: sort_inv_def)
qed

lemma topologicalSort_error:
  assumes "topologicalSort w = Inl e"
  shows "\<exists>m. e = CycleError m \<and> (m, m) \<in> (feeds w)\<^sup>+"
proof -
  let ?s0 = "\<lparr>result = [], visited = {}, temp = {}\<rparr>"
  show ?thesis
  proof (cases "visitAll w (entryPoints w) ?s0")
    case (Inl e')
    with assms have "e' = e" by (simp add: topologicalSort_def)
    with Inl visit_error(2)[of w "entryPoints w" ?s0 e] sort_inv_init show ?thesis by simp
  next
    case (Inr s1)
    with assms have n: "visitNodes w (nodes w) s1 = Inl e"
      by (auto simp: topologicalSort_def split: sum.splits)
    from visit_ok(2)[OF Inr sort_inv_init] have "sort_inv w s1" "temp s1 = {}" by auto
    from visitNodes_error[OF n this] show ?thesis .
  qed
qed

text \<open>An order that respects the dependencies is closed under them and meets no cycle.\<close>

lemma respects_closed:
  assumes "respectsDependencies w order" "(a, b) \<in> (feeds w)\<^sup>*" "b \<in> set order"
  shows "a \<in> set order"
  using assms(2,3)
proof (induction rule: converse_rtrancl_induct)
  case base
  then show ?case .
next
  case (step x y)
  then have "y \<in> set order" by simp
  then obtain i where i: "i < length order" "order ! i = y" by (auto simp: in_set_conv_nth)
  from step(1) obtain c where "c \<in> set (connections w)" "sourceNodeId c = x" "targetNodeId c = y"
    by (auto simp: feeds_def)
  with assms(1) i have "x \<in> set (take i order)" by (auto simp: respectsDependencies_def)
  then show ?case by (rule in_set_takeD)
qed

lemma respects_no_cycle:
  "distinct order \<Longrightarrow> respectsDependencies w order \<Longrightarrow> n \<in> set order
     \<Longrightarrow> (n, n) \<notin> (feeds w)\<^sup>+"
proof (induction order arbitrary: n rule: rev_induct)
  case Nil
  then show ?case by simp
next
  case (snoc x xs)
  from snoc.prems(2) have rx: "respectsDependencies w xs"
    and dx: "set (getNodeDependencies x w) \<subseteq> set xs"
    by (simp_all add: respects_snoc)
  show ?case
  proof (cases "n \<in> set xs")
    case True
    with snoc.IH[OF _ rx] snoc.prems(1) show ?thesis by simp
  next
    case False
    with snoc.prems(3) have nx: "n = x" by simp
    show ?thesis
    proof
      assume "(n, n) \<in> (feeds w)\<^sup>+"
      then obtain d where "(n, d) \<in> (feeds w)\<^sup>*" "(d, n) \<in> feeds w"
        by (auto dest: tranclD2)
      then have "d \<in> set xs" using dx nx by (auto simp: getNodeDependencies_feeds)
      with respects_closed[OF rx \<open>(n, d) \<in> (feeds w)\<^sup>*\<close>] have "n \<in> set xs" by simp
      with False show False ..
    qed
  qed
qed

lemma distinct_count_list_one: "distinct xs \<Longrightarrow> x \<in> set xs \<Longrightarrow> count_list xs x = 1"
  by (induction xs) (auto simp: count_list_0_iff)

text \<open>
  C2. For a workflow whose dependency relation has no cycle, \<open>topologicalSort\<close>
  returns an order in which every node of the workflow appears exactly once and every
  node stands after all nodes whose outputs feed its inputs. For a workflow with a cycle
  from which an entry point or a node of the workflow can be reached along connections
  (a cycle the sort reaches), it throws the cycle error, and the node the message names
  lies on a cycle.
\<close>

theorem topologicalSort_correct:
  "(acyclic (feeds w) \<longrightarrow>
      (\<exists>order. topologicalSort w = Inr order
         \<and> (\<forall>n \<in> set (nodes w). count_list order (node_id n) = 1)
         \<and> respectsDependencies w order))
   \<and> ((\<exists>n r. (n, n) \<in> (feeds w)\<^sup>+ \<and> (n, r) \<in> (feeds w)\<^sup>*
              \<and> r \<in> set (entryPoints w) \<union> node_id ` set (nodes w)) \<longrightarrow>
      (\<exists>m. topologicalSort w = Inl (CycleError m) \<and> (m, m) \<in> (feeds w)\<^sup>+
           \<and> engine_error_message (CycleError m)
               = ''Workflow contains a cycle involving node '' @ m))"
proof (intro conjI impI)
  assume ac: "acyclic (feeds w)"
  show "\<exists>order. topologicalSort w = Inr order
         \<and> (\<forall>n \<in> set (nodes w). count_list order (node_id n) = 1)
         \<and> respectsDependencies w order"
  proof (cases "topologicalSort w")
    case (Inl e)
    from topologicalSort_error[OF Inl] ac show ?thesis by (auto simp: acyclic_def)
  next
    case (Inr order)
    from topologicalSort_ok[OF Inr] have d: "distinct order"
      and all: "node_id ` set (nodes w) \<subseteq> set order"
      and r: "respectsDependencies w order" by auto
    have "\<forall>n \<in> set (nodes w). count_list order (node_id n) = 1"
    proof
      fix n assume "n \<in> set (nodes w)"
      then have "node_id n \<in> set order" using all by auto
      with d show "count_list order (node_id n) = 1" by (rule distinct_count_list_one)
    qed
    with Inr r show ?thesis by simp
  qed
next
  assume "\<exists>n r. (n, n) \<in> (feeds w)\<^sup>+ \<and> (n, r) \<in> (feeds w)\<^sup>*
              \<and> r \<in> set (entryPoints w) \<union> node_id ` set (nodes w)"
  then obtain n r where cyc: "(n, n) \<in> (feeds w)\<^sup>+" and reach: "(n, r) \<in> (feeds w)\<^sup>*"
    and root: "r \<in> set (entryPoints w) \<union> node_id ` set (nodes w)" by blast
  show "\<exists>m. topologicalSort w = Inl (CycleError m) \<and> (m, m) \<in> (feeds w)\<^sup>+
           \<and> engine_error_message (CycleError m)
               = ''Workflow contains a cycle involving node '' @ m"
  proof (cases "topologicalSort w")
    case (Inl e)
    from topologicalSort_error[OF Inl] Inl show ?thesis by auto
  next
    case (Inr order)
    from topologicalSort_ok[OF Inr] root have ok: "distinct order" "respectsDependencies w order"
      "r \<in> set order" by auto
    from respects_closed[OF ok(2) reach ok(3)] have "n \<in> set order" .
    from respects_no_cycle[OF ok(1,2) this] cyc show ?thesis by simp
  qed
qed

lemma acyclic_by_rank:
  fixes rank :: "'a \<Rightarrow> nat"
  assumes "\<forall>(a, b) \<in> r. rank a < rank b"
  shows "acyclic r"
proof -
  have "(a, b) \<in> r\<^sup>+ \<Longrightarrow> rank a < rank b" for a b
    by (induction rule: trancl_induct) (use assms in \<open>auto intro: less_trans\<close>)
  then show ?thesis by (fastforce simp: acyclic_def)
qed

lemma topologicalSort_linear: "topologicalSort linear_workflow = Inr [''A'', ''B'', ''C'']"
  by (simp add: topologicalSort_def linear_workflow_def visit.simps getNodeDependencies_def
        mk_connection_def)

lemma topologicalSort_circular:
  "topologicalSort circular_workflow = Inl (CycleError ''a'')"
  by (simp add: topologicalSort_def circular_workflow_def visit.simps getNodeDependencies_def)

theorem topologicalSort_correct_witness:
  "acyclic (feeds linear_workflow)
   \<and> topologicalSort linear_workflow = Inr [''A'', ''B'', ''C'']
   \<and> map node_id (nodes linear_workflow) = [''A'', ''B'', ''C'']
   \<and> map (count_list [''A'', ''B'', ''C'']) [''A'', ''B'', ''C''] = [1, 1, 1]
   \<and> respectsDependencies linear_workflow [''A'', ''B'', ''C'']
   \<and> (''a'', ''a'') \<in> (feeds circular_workflow)\<^sup>+
   \<and> ''a'' \<in> node_id ` set (nodes circular_workflow)
   \<and> (\<exists>m. topologicalSort circular_workflow = Inl (CycleError m)
          \<and> (m, m) \<in> (feeds circular_workflow)\<^sup>+
          \<and> engine_error_message (CycleError m) = ''Workflow contains a cycle involving node '' @ m)"
proof -
  have ac: "acyclic (feeds linear_workflow)"
    by (rule acyclic_by_rank[where rank = "\<lambda>n. if n = ''A'' then 0 else if n = ''B'' then 1 else 2"])
       (simp add: feeds_def linear_workflow_def mk_connection_def)
  have "(''a'', ''b'') \<in> feeds circular_workflow" "(''b'', ''a'') \<in> feeds circular_workflow"
    by (simp_all add: feeds_def circular_workflow_def)
  then have cyc: "(''a'', ''a'') \<in> (feeds circular_workflow)\<^sup>+" by (rule trancl_into_trancl[OF r_into_trancl])
  have root: "''a'' \<in> set (entryPoints circular_workflow) \<union> node_id ` set (nodes circular_workflow)"
    by (simp add: circular_workflow_def)
  from topologicalSort_correct[of linear_workflow] ac
  have lin: "\<exists>order. topologicalSort linear_workflow = Inr order
         \<and> (\<forall>n \<in> set (nodes linear_workflow). count_list order (node_id n) = 1)
         \<and> respectsDependencies linear_workflow order" by blast
  from topologicalSort_correct[of circular_workflow] cyc root
  have circ: "\<exists>m. topologicalSort circular_workflow = Inl (CycleError m)
          \<and> (m, m) \<in> (feeds circular_workflow)\<^sup>+
          \<and> engine_error_message (CycleError m) = ''Workflow contains a cycle involving node '' @ m"
    by blast
  from lin have "(\<forall>n \<in> set (nodes linear_workflow). count_list [''A'', ''B'', ''C''] (node_id n) = 1)
     \<and> respectsDependencies linear_workflow [''A'', ''B'', ''C'']"
    by (simp add: topologicalSort_linear)
  moreover have "map node_id (nodes linear_workflow) = [''A'', ''B'', ''C'']"
    by (simp add: linear_workflow_def)
  ultimately show ?thesis using ac cyc root circ
    by (simp add: topologicalSort_linear circular_workflow_def)
qed

section \<open>Runs of the workflow engine\<close>

lemmas engine_eval =
  executeWorkflow_def executeWorkflow_start_def executeWorkflow_run_def new_engine_def
  publish_event_def seedInputs_def complete_run_def createWorkflowResult_def settle_def
  fail_run_def handleWorkflowError_def set_context_status_def controller_abort_def
  abort_listener_def gatherInputs_def get_prop_def set_prop_def object_assign_def
  mk_connection_def default_options_def

lemma linear_workflow_fields:
  "workflow_id linear_workflow = ''linear''"
  "nodes linear_workflow = [\<lparr>node_id = ''A'', node_type = ''const''\<rparr>,
               \<lparr>node_id = ''B'', node_type = ''double''\<rparr>,
               \<lparr>node_id = ''C'', node_type = ''sink''\<rparr>]"
  "connections linear_workflow = [mk_connection ''c1'' ''A'' ''v'' ''B'' ''v'',
         mk_connection ''c2'' ''B'' ''v'' ''C'' ''v'']"
  "entryPoints linear_workflow = [''A'']"
  "exitPoints linear_workflow = [''C'']"
  by (simp_all add: linear_workflow_def)

lemma linear_run_status:
  "promises (executeWorkflow linear_executor linear_workflow default_options new_engine) ''linear''
     = Some (Resolved \<lparr>result_workflowId = ''linear'', result_status = Running,
                        result_outputs = [(''C'', [(''v'', Num 14)])],
                        result_nodesExecuted = 3\<rparr>)"
  by (simp add: engine_eval Let_def topologicalSort_linear linear_executor_def linear_workflow_fields)

lemma seedInputs_status [simp]: "ctx_status (seedInputs w opts ctx) = ctx_status ctx"
proof -
  have "ctx_status (fold (\<lambda>entryNodeId c. c\<lparr>nodeOutputs := (nodeOutputs c)(entryNodeId \<mapsto> ins)\<rparr>) es ctx)
          = ctx_status ctx" for ins es
    by (induction es arbitrary: ctx) auto
  then show ?thesis by (simp add: seedInputs_def split: option.splits)
qed

lemma runSequential_status:
  "runSequential executeNode w order ab (ctx, k) = Inr (ctx', k') \<Longrightarrow> ctx_status ctx' = ctx_status ctx"
  by (induction executeNode w order ab "(ctx, k)" arbitrary: ctx k rule: runSequential.induct)
     (auto split: if_splits option.splits sum.splits)

lemma runLevelNodes_status:
  "runLevelNodes executeNode started (ctx, k) = Inr (ctx', k') \<Longrightarrow> ctx_status ctx' = ctx_status ctx"
  by (induction executeNode started "(ctx, k)" arbitrary: ctx k rule: runLevelNodes.induct)
     (auto split: sum.splits)

lemma runParallel_status:
  "runParallel executeNode w levels ab (ctx, k) = Inr (ctx', k') \<Longrightarrow> ctx_status ctx' = ctx_status ctx"
proof (induction executeNode w levels ab "(ctx, k)" arbitrary: ctx k rule: runParallel.induct)
  case (1 executeNode w ab ctx executed)
  then show ?case by simp
next
  case (2 executeNode w level rest ab ctx executed)
  show ?case
  proof (cases ab)
    case True
    with 2(2) show ?thesis by simp
  next
    case False
    with 2(2) obtain c1 k1 where
      l: "runLevelNodes executeNode (startLevel w ctx level) (ctx, executed) = Inr (c1, k1)"
      and r: "runParallel executeNode w rest ab (c1, k1) = Inr (ctx', k')"
      by (auto split: sum.splits)
    from 2(1)[OF False l r] runLevelNodes_status[OF l] show ?thesis by simp
  qed
qed

lemma settle_promise:
  "promises (settle wid outcome eng) wid
     = (case promises eng wid of Some Unsettled \<Rightarrow> Some outcome | other \<Rightarrow> other)"
  by (simp add: settle_def split: option.splits promise_state.splits)

lemma handleWorkflowError_promises [simp]:
  "promises (handleWorkflowError wid err eng) = promises eng"
  by (simp add: handleWorkflowError_def publish_event_def set_context_status_def
        split: option.splits)

lemma controller_abort_promises_unsettled:
  "promises eng wid = Some Unsettled \<Longrightarrow>
     promises (controller_abort wid eng) wid = Some Unsettled
     \<or> promises (controller_abort wid eng) wid = Some (Rejected Cancelled_Error)"
  by (simp add: controller_abort_def abort_listener_def Let_def settle_promise
        split: option.splits)

text \<open>
  C1, on the code. The claim asks for status \<open>completed\<close> in the result of a run that
  finishes without failure, cancellation or timeout. The result takes its status from the
  context, which is \<open>running\<close> from creation and which the success path never updates
  (only the handle's status is set to \<open>completed\<close>, after the result was built): whenever
  the promise of an uninterrupted run resolves, the result's status is \<open>running\<close>.
\<close>

theorem resolved_status_is_running:
  "promises (executeWorkflow executeNode w opts eng) (workflow_id w) = Some (Resolved r)
     \<longrightarrow> result_status r = Running"
proof
  let ?wid = "workflow_id w"
  let ?e0 = "executeWorkflow_start w opts eng"
  assume res: "promises (executeWorkflow executeNode w opts eng) ?wid = Some (Resolved r)"
  obtain c0 where c: "contexts ?e0 ?wid = Some c0" and cs: "ctx_status c0 = Running"
    by (simp add: executeWorkflow_start_def publish_event_def)
  have ctl: "controllers ?e0 ?wid = Some \<lparr>aborted = False, abortListener = False\<rparr>"
    and pr: "promises ?e0 ?wid = Some Unsettled"
    by (simp_all add: executeWorkflow_start_def publish_event_def)
  show "result_status r = Running"
  proof (cases "topologicalSort w")
    case (Inl e)
    then have "promises (executeWorkflow executeNode w opts eng) ?wid = Some (Rejected e)"
      using c ctl pr
      by (simp add: executeWorkflow_def executeWorkflow_run_def Let_def fail_run_def settle_promise)
    with res show ?thesis by simp
  next
    case (Inr executionOrder)
    let ?e1 = "?e0\<lparr>controllers := (controllers ?e0)
                  (?wid \<mapsto> \<lparr>aborted = False, abortListener = False\<rparr>\<lparr>abortListener := True\<rparr>)\<rparr>"
    let ?ran = "if opt_parallel opts
                then runParallel executeNode w (groupNodesByLevel w executionOrder) False
                       (seedInputs w opts c0, 0)
                else runSequential executeNode w executionOrder False
                       (seedInputs w opts c0, 0)"
    show ?thesis
    proof (cases ?ran)
      case (Inl e)
      have p1: "promises ?e1 ?wid = Some Unsettled" using pr by simp
      have "promises (executeWorkflow executeNode w opts eng) ?wid
              = promises (fail_run ?wid e
                   (if opt_parallel opts then controller_abort ?wid ?e1 else ?e1)) ?wid"
        using c ctl Inr Inl
        by (auto simp add: executeWorkflow_def executeWorkflow_run_def Let_def split: if_splits)
      moreover have "promises (fail_run ?wid e
                   (if opt_parallel opts then controller_abort ?wid ?e1 else ?e1)) ?wid
                \<noteq> Some (Resolved r)"
        using controller_abort_promises_unsettled[OF p1] p1
        by (auto simp: fail_run_def settle_promise)
      ultimately show ?thesis using res by simp
    next
      case ran: (Inr st)
      obtain ctx k where st: "st = (ctx, k)" by (cases st)
      have status: "ctx_status ctx = Running"
      proof (cases "opt_parallel opts")
        case True
        with ran st runParallel_status[of executeNode w _ False _ 0 ctx k] cs show ?thesis by simp
      next
        case False
        with ran st runSequential_status[of executeNode w _ False _ 0 ctx k] cs show ?thesis by simp
      qed
      have "promises (executeWorkflow executeNode w opts eng) ?wid
              = Some (Resolved (createWorkflowResult w ctx k))"
        using c ctl pr Inr ran st
        by (auto simp add: executeWorkflow_def executeWorkflow_run_def Let_def complete_run_def
              settle_promise publish_event_def split: option.splits if_splits)
      with res have "r = createWorkflowResult w ctx k" by simp
      then show ?thesis using status by (simp add: createWorkflowResult_def)
    qed
  qed
qed

theorem resolved_status_is_running_witness:
  "promises (executeWorkflow linear_executor linear_workflow default_options new_engine)
      (workflow_id linear_workflow)
     = Some (Resolved \<lparr>result_workflowId = ''linear'', result_status = Running,
                        result_outputs = [(''C'', [(''v'', Num 14)])],
                        result_nodesExecuted = 3\<rparr>)
   \<and> result_status \<lparr>result_workflowId = ''linear'', result_status = Running,
                        result_outputs = [(''C'', [(''v'', Num 14)])],
                        result_nodesExecuted = 3\<rparr> = Running
   \<and> result_status \<lparr>result_workflowId = ''linear'', result_status = Running,
                        result_outputs = [(''C'', [(''v'', Num 14)])],
                        result_nodesExecuted = 3\<rparr> \<noteq> Completed"
proof -
  have run: "promises (executeWorkflow linear_executor linear_workflow default_options new_engine)
      (workflow_id linear_workflow)
     = Some (Resolved \<lparr>result_workflowId = ''linear'', result_status = Running,
                        result_outputs = [(''C'', [(''v'', Num 14)])],
                        result_nodesExecuted = 3\<rparr>)"
    using linear_run_status by (simp add: linear_workflow_fields)
  from resolved_status_is_running
         [of linear_executor linear_workflow default_options new_engine] run
  show ?thesis by simp
qed

lemma controller_abort_keeps:
  "promises (controller_abort wid eng) = promises eng"
  "activeWorkflows (controller_abort wid eng) = activeWorkflows eng"
  "published (controller_abort wid eng) = published eng"
  by (simp_all add: controller_abort_def abort_listener_def Let_def split: option.splits)

text \<open>
  C6, on the code. The claim asks that stopping a running workflow rejects its promise,
  removes the handle and makes \<open>getWorkflowStatus\<close> answer \<open>completed\<close>. The abort
  listener rejects only when \<open>signal.aborted\<close> is false, which it never is once
  \<open>abort()\<close> has been called: for every workflow with a handle, \<open>stopWorkflow\<close>
  publishes \<open>workflow:failed\<close> with the cancellation error, and leaves the promise as it
  was, the handle in place with status \<open>cancelled\<close>, and \<open>getWorkflowStatus\<close> answering
  \<open>cancelled\<close>.
\<close>

theorem stopWorkflow_leaves_run_pending:
  "activeWorkflows eng wid \<noteq> None \<longrightarrow>
     fst (stopWorkflow wid eng) = None
     \<and> published (snd (stopWorkflow wid eng)) = published eng @ [WorkflowFailed wid Cancelled_Error]
     \<and> promises (snd (stopWorkflow wid eng)) wid = promises eng wid
     \<and> activeWorkflows (snd (stopWorkflow wid eng)) wid = Some Cancelled
     \<and> getWorkflowStatus wid (snd (stopWorkflow wid eng)) = Cancelled"
  by (auto simp: stopWorkflow_def getWorkflowStatus_def controller_abort_keeps publish_event_def
        set_context_status_def split: option.splits)

theorem stopWorkflow_leaves_run_pending_witness:
  "activeWorkflows started_engine ''linear'' \<noteq> None
   \<and> promises started_engine ''linear'' = Some Unsettled
   \<and> fst (stopWorkflow ''linear'' started_engine) = None
   \<and> published (snd (stopWorkflow ''linear'' started_engine))
        = [WorkflowStarted ''linear'', WorkflowFailed ''linear'' Cancelled_Error]
   \<and> promises (snd (stopWorkflow ''linear'' started_engine)) ''linear'' = Some Unsettled
   \<and> getWorkflowStatus ''linear'' (snd (stopWorkflow ''linear'' started_engine)) = Cancelled
   \<and> promises (executeWorkflow_run linear_executor linear_workflow default_options
                  (snd (stopWorkflow ''linear'' started_engine))) ''linear'' = Some Unsettled
   \<and> getWorkflowStatus ''linear''
        (executeWorkflow_run linear_executor linear_workflow default_options
           (snd (stopWorkflow ''linear'' started_engine))) = Cancelled"
proof -
  have a: "activeWorkflows started_engine ''linear'' \<noteq> None"
    and p: "promises started_engine ''linear'' = Some Unsettled"
    and e: "published started_engine = [WorkflowStarted ''linear'']"
    by (simp_all add: started_engine_def executeWorkflow_start_def new_engine_def
          publish_event_def linear_workflow_fields)
  have later:
    "promises (executeWorkflow_run linear_executor linear_workflow default_options
                  (snd (stopWorkflow ''linear'' started_engine))) ''linear'' = Some Unsettled
     \<and> getWorkflowStatus ''linear''
        (executeWorkflow_run linear_executor linear_workflow default_options
           (snd (stopWorkflow ''linear'' started_engine))) = Cancelled"
    by (simp add: started_engine_def stopWorkflow_def getWorkflowStatus_def engine_eval Let_def
          topologicalSort_linear linear_workflow_fields)
  from stopWorkflow_leaves_run_pending [of started_engine "''linear''"] a p e later
  show ?thesis by simp
qed

text \<open>
  C3, on the code. In a run of \<open>A \<rightarrow> B \<rightarrow> C\<close> that resolves, where \<open>A\<close> puts the
  number 0 on its port \<open>v\<close>, the context holds \<open>nodeOutputs[A][v] = 0\<close> but the inputs
  gathered for \<open>B\<close> have no key \<open>v\<close>, and \<open>B\<close> was executed with no inputs: the
  truthiness test drops the value.
\<close>

theorem gatherInputs_drops_falsy_value:
  "(case contexts (executeWorkflow (echo_executor (Num 0)) linear_workflow default_options
                     new_engine) ''linear'' of
      None \<Rightarrow> False
    | Some ctx \<Rightarrow>
        nodeOutputs ctx ''A'' = Some [(''v'', Num 0)]
        \<and> map_of (gatherInputs node_B linear_workflow ctx) ''v'' = None
        \<and> nodeOutputs ctx ''B'' = Some [(''v'', Obj [])])
   \<and> (\<exists>r. promises (executeWorkflow (echo_executor (Num 0)) linear_workflow default_options
                       new_engine) ''linear'' = Some (Resolved r))"
  by (simp add: engine_eval Let_def topologicalSort_linear echo_executor_def
        linear_workflow_fields node_B_def)

lemma seeded_workflow_fields:
  "workflow_id seeded_workflow = ''seeded''"
  "nodes seeded_workflow = [\<lparr>node_id = ''A'', node_type = ''const''\<rparr>,
               \<lparr>node_id = ''B'', node_type = ''sink''\<rparr>]"
  "connections seeded_workflow = [mk_connection ''c1'' ''A'' ''v'' ''B'' ''v'']"
  "entryPoints seeded_workflow = [''A'', ''B'']"
  "exitPoints seeded_workflow = [''B'']"
  by (simp_all add: seeded_workflow_def)

lemma topologicalSort_seeded: "topologicalSort seeded_workflow = Inr [''A'', ''B'']"
  by (simp add: topologicalSort_def seeded_workflow_fields visit.simps getNodeDependencies_def
        mk_connection_def)

text \<open>
  C4, on the code. For the entry node \<open>B\<close> with the connection value 7 and the seed
  \<open>''seed''\<close> under the same key \<open>v\<close>, the gathered inputs hold the seed:
  \<open>Object.assign(inputs, initialInputs)\<close> writes the seed over the connection value. The
  key \<open>w\<close>, present in the seed only, is merged in. The run of the workflow shows the
  same inputs reaching the executor of \<open>B\<close>.
\<close>

theorem gatherInputs_seed_overrides_connection:
  "gatherInputs \<lparr>node_id = ''B'', node_type = ''sink''\<rparr> seeded_workflow
     \<lparr>ctx_workflowId = ''seeded'',
      nodeOutputs = [''A'' \<mapsto> [(''v'', Num 7)],
                     ''B'' \<mapsto> [(''v'', Str ''seed''), (''w'', Str ''extra'')]],
      ctx_status = Running, ctx_variables = []\<rparr>
     = [(''v'', Str ''seed''), (''w'', Str ''extra'')]
   \<and> promises (executeWorkflow (echo_executor (Num 7)) seeded_workflow seed_options new_engine)
         ''seeded''
       = Some (Resolved \<lparr>result_workflowId = ''seeded'', result_status = Running,
             result_outputs = [(''B'', [(''v'', Obj [(''v'', Str ''seed''), (''w'', Str ''extra'')])])],
             result_nodesExecuted = 2\<rparr>)"
  by (simp add: engine_eval Let_def topologicalSort_seeded echo_executor_def
        seeded_workflow_fields seed_options_def)

lemma topologicalSort_reordered: "topologicalSort reordered_chain = Inr [''A'', ''B'', ''C'']"
  by (simp add: topologicalSort_def reordered_chain_def visit.simps getNodeDependencies_def
        mk_connection_def)

text \<open>
  C5, on the code. For the chain \<open>A \<rightarrow> B \<rightarrow> C\<close> with the connection \<open>B \<rightarrow> C\<close> listed
  before \<open>A \<rightarrow> B\<close>, \<open>groupNodesByLevel\<close> puts \<open>B\<close> and \<open>C\<close> on the same level,
  although \<open>C\<close> consumes an output of \<open>B\<close>; with the same connections listed in the
  other order the levels are the longest-path depths.
\<close>

theorem groupNodesByLevel_depends_on_connection_order:
  "topologicalSort reordered_chain = Inr [''A'', ''B'', ''C'']
   \<and> groupNodesByLevel reordered_chain [''A'', ''B'', ''C''] = [[''A''], [''B'', ''C'']]
   \<and> topologicalSort linear_workflow = Inr [''A'', ''B'', ''C'']
   \<and> groupNodesByLevel linear_workflow [''A'', ''B'', ''C''] = [[''A''], [''B''], [''C'']]
   \<and> set (connections reordered_chain) = set (connections linear_workflow)"
proof -
  have "groupNodesByLevel reordered_chain [''A'', ''B'', ''C''] = [[''A''], [''B'', ''C'']]"
    by (simp add: groupNodesByLevel_def Let_def level_of_def reordered_chain_def
          mk_connection_def)
  moreover
  have "groupNodesByLevel linear_workflow [''A'', ''B'', ''C''] = [[''A''], [''B''], [''C'']]"
    by (simp add: groupNodesByLevel_def Let_def level_of_def linear_workflow_def
          mk_connection_def)
  moreover
  have "set (connections reordered_chain) = set (connections linear_workflow)"
    by (simp add: reordered_chain_def linear_workflow_def insert_commute)
  ultimately show ?thesis
    using topologicalSort_reordered topologicalSort_linear by simp
qed


section \<open>Publishing\<close>

lemmas bus_eval =
  publish_def publish_callbacks.simps subscribe_def unsubscribe_def new_bus_def subscribersOf_def
  hasSubscribers_def getSubscriberCount_def startedFor_def SYSTEM_ERROR_def Let_def
  throwing_callback_def quiet_callback_def once_options_def no_options_def

text \<open>
  C7, on the code. A once subscriber whose callback throws is still in the subscription
  table when \<open>publish\<close> has finished, and the next \<open>publish\<close> calls it again: the
  subscription is noted for removal only after the callback has returned. A once
  subscriber whose callback returns is removed and is called once.
\<close>

theorem publish_keeps_throwing_once_subscriber:
  "hasSubscribers
     (publish ''workflow:started'' (Obj [])
        (snd (subscribe ''workflow:started'' throwing_callback once_options new_bus)))
     ''workflow:started''
   \<and> getSubscriberCount
     (publish ''workflow:started'' (Obj [])
        (snd (subscribe ''workflow:started'' throwing_callback once_options new_bus)))
     ''workflow:started'' = 1
   \<and> length (invocations
         (publish ''workflow:started'' (Obj [])
           (publish ''workflow:started'' (Obj [])
             (snd (subscribe ''workflow:started'' throwing_callback once_options new_bus))))) = 2
   \<and> \<not> hasSubscribers
     (publish ''workflow:started'' (Obj [])
        (snd (subscribe ''workflow:started'' quiet_callback once_options new_bus)))
     ''workflow:started''
   \<and> length (invocations
         (publish ''workflow:started'' (Obj [])
           (publish ''workflow:started'' (Obj [])
             (snd (subscribe ''workflow:started'' quiet_callback once_options new_bus))))) = 1"
  by (simp add: bus_eval)

text \<open>A subscriber registered by a callback during delivery is first called by the
  next \<open>publish\<close>.\<close>

lemma new_sub_not_invoked:
  "map (sub_id \<circ> snd) (invocations (publish ''e'' (Obj [])
       (snd (subscribe ''e'' (subscribing_callback ''e'') no_options new_bus))))
    = [Generated 0]
  \<and> map (sub_id \<circ> snd) (invocations (publish ''e'' (Obj []) (publish ''e'' (Obj [])
       (snd (subscribe ''e'' (subscribing_callback ''e'') no_options new_bus)))))
    = [Generated 0, Generated 0, Generated 1]"
  by (simp add: bus_eval subscribing_callback_def)

lemma subscribe_invocations [simp]:
  "invocations (snd (subscribe et cb options bus)) = invocations bus"
  by (simp add: subscribe_def Let_def)

lemma fold_subscribe_invocations [simp]:
  "invocations (fold (\<lambda>(et, cb, options) b. snd (subscribe et cb options b)) news bus)
     = invocations bus"
  by (induction news arbitrary: bus) (auto simp: split_def)

lemma unsubscribe_invocations [simp]: "invocations (unsubscribe h bus) = invocations bus"
  by (simp add: unsubscribe_def Let_def split: option.splits)

lemma fold_unsubscribe_invocations [simp]:
  "invocations (fold unsubscribe hs bus) = invocations bus"
  by (induction hs arbitrary: bus) auto

text \<open>Delivery of \<open>system:error\<close> starts exactly the given subscribers, in order.\<close>

lemma deliver_system_error:
  "invocations (fst (deliver SYSTEM_ERROR d subs (bus, tr)))
     = invocations bus @ map (Pair SYSTEM_ERROR) subs"
  by (induction subs arbitrary: bus tr) (auto simp: Let_def)

lemma publish_callbacks_system_error:
  "\<exists>subs. invocations (fst (publish_callbacks SYSTEM_ERROR d bus))
     = invocations bus @ map (Pair SYSTEM_ERROR) subs"
proof (cases "subscriptions bus SYSTEM_ERROR")
  case None
  then have "invocations (fst (publish_callbacks SYSTEM_ERROR d bus))
               = invocations bus @ map (Pair SYSTEM_ERROR) []"
    by (simp add: publish_callbacks.simps)
  then show ?thesis by blast
next
  case (Some subscribers)
  show ?thesis
  proof (cases "subscribers = []")
    case True
    with Some have "invocations (fst (publish_callbacks SYSTEM_ERROR d bus))
               = invocations bus @ map (Pair SYSTEM_ERROR) []"
      by (simp add: publish_callbacks.simps)
    then show ?thesis by blast
  next
    case False
    with Some show ?thesis
      by (auto simp: publish_callbacks.simps deliver_system_error)
  qed
qed

text \<open>Delivery of an event starts, for that event, exactly the given subscribers in
  order; whatever else is started belongs to nested \<open>system:error\<close> publishes.\<close>

lemma deliver_started:
  "\<exists>L. invocations (fst (deliver et d subs (bus, tr))) = invocations bus @ L
       \<and> filter (\<lambda>e. fst e = et) L = map (Pair et) subs"
proof (cases "et = SYSTEM_ERROR")
  case True
  have "filter (\<lambda>e. fst e = et) (map (Pair et) subs) = map (Pair et) subs"
    by (induction subs) auto
  with True deliver_system_error[of d subs bus tr] show ?thesis by auto
next
  case False
  show ?thesis
  proof (induction subs arbitrary: bus tr)
    case Nil
    then show ?case by simp
  next
    case (Cons sub rest)
    let ?bus1 = "fold (\<lambda>(et, cb, options) b. snd (subscribe et cb options b))
                   (snd (run_callback (sub_callback sub) d))
                   (bus\<lparr>invocations := invocations bus @ [(et, sub)]\<rparr>)"
    have i1: "invocations ?bus1 = invocations bus @ [(et, sub)]" by simp
    show ?case
    proof (cases "fst (run_callback (sub_callback sub) d)")
      case returned: False
      let ?tr' = "if sub_once sub then tr @ [(sub_eventType sub, sub_id sub)] else tr"
      from Cons.IH[of ?bus1 ?tr'] obtain L where
        L: "invocations (fst (deliver et d rest (?bus1, ?tr'))) = invocations ?bus1 @ L"
           "filter (\<lambda>e. fst e = et) L = map (Pair et) rest" by blast
      have "deliver et d (sub # rest) (bus, tr) = deliver et d rest (?bus1, ?tr')"
        using returned by (simp add: Let_def)
      with L i1 have "invocations (fst (deliver et d (sub # rest) (bus, tr)))
                        = invocations bus @ ((et, sub) # L)
                      \<and> filter (\<lambda>e. fst e = et) ((et, sub) # L) = map (Pair et) (sub # rest)"
        by simp
      then show ?thesis by blast
    next
      case thrown: True
      let ?nested = "publish_callbacks SYSTEM_ERROR (error_payload et d) ?bus1"
      from publish_callbacks_system_error[of "error_payload et d" ?bus1] obtain errs where
        n: "invocations (fst ?nested) = invocations ?bus1 @ map (Pair SYSTEM_ERROR) errs"
        by blast
      from Cons.IH[of "fst ?nested" "tr @ snd ?nested"] obtain L where
        L: "invocations (fst (deliver et d rest (fst ?nested, tr @ snd ?nested)))
              = invocations (fst ?nested) @ L"
           "filter (\<lambda>e. fst e = et) L = map (Pair et) rest" by blast
      have eq: "deliver et d (sub # rest) (bus, tr)
                  = deliver et d rest (fst ?nested, tr @ snd ?nested)"
        using thrown False by (simp add: Let_def)
      have none: "filter (\<lambda>e. fst e = et) (map (Pair SYSTEM_ERROR) errs) = []"
        using False by (induction errs) auto
      have "invocations (fst (deliver et d (sub # rest) (bus, tr)))
              = invocations bus @ ((et, sub) # map (Pair SYSTEM_ERROR) errs @ L)
            \<and> filter (\<lambda>e. fst e = et) ((et, sub) # map (Pair SYSTEM_ERROR) errs @ L)
                = map (Pair et) (sub # rest)"
        using L n i1 none unfolding eq by simp
      then show ?thesis by blast
    qed
  qed
qed

lemma startedFor_publish:
  "startedFor et bus (publish et d bus) = sort_key (\<lambda>s. - sub_priority s) (subscribersOf bus et)"
proof (cases "subscribersOf bus et = []")
  case True
  then have "publish_callbacks et d bus = (bus, [])"
    by (auto simp: publish_callbacks.simps subscribersOf_def split: option.splits)
  with True show ?thesis by (simp add: publish_def startedFor_def)
next
  case False
  let ?sorted = "sort_key (\<lambda>s. - sub_priority s) (subscribersOf bus et)"
  from False have pc: "publish_callbacks et d bus = deliver et d ?sorted (bus, [])"
    by (auto simp: publish_callbacks.simps subscribersOf_def split: option.splits)
  from deliver_started[of et d ?sorted bus "[]"] obtain L where
    L: "invocations (fst (deliver et d ?sorted (bus, []))) = invocations bus @ L"
       "filter (\<lambda>e. fst e = et) L = map (Pair et) ?sorted" by blast
  have "startedFor et bus (publish et d bus) = map snd (filter (\<lambda>e. fst e = et) L)"
    using L(1) by (simp add: publish_def startedFor_def pc split_def)
  also have "\<dots> = ?sorted" using L(2) by (simp add: comp_def)
  finally show ?thesis .
qed

text \<open>
  C8. Within one \<open>publish\<close>, the callbacks started for the event are the subscribers
  registered for it before the call, each once, whatever the callbacks subscribe
  meanwhile: they are started in descending priority order, subscribers of equal priority
  in their insertion order.
\<close>

theorem publish_start_order:
  "sorted_wrt (\<lambda>a b. sub_priority a \<ge> sub_priority b) (startedFor et bus (publish et d bus))
   \<and> (\<forall>p. filter (\<lambda>s. sub_priority s = p) (startedFor et bus (publish et d bus))
            = filter (\<lambda>s. sub_priority s = p) (subscribersOf bus et))
   \<and> length (startedFor et bus (publish et d bus)) = length (subscribersOf bus et)
   \<and> set (startedFor et bus (publish et d bus)) = set (subscribersOf bus et)"
proof -
  let ?subs = "subscribersOf bus et"
  let ?key = "\<lambda>s. - sub_priority s"
  have "sorted (map ?key (sort_key ?key ?subs))" by (rule sorted_sort_key)
  then have "sorted_wrt (\<lambda>a b. ?key a \<le> ?key b) (sort_key ?key ?subs)"
    by (simp add: sorted_map)
  then have a: "sorted_wrt (\<lambda>a b. sub_priority a \<ge> sub_priority b) (sort_key ?key ?subs)"
    by simp
  have b: "filter (\<lambda>s. sub_priority s = p) (sort_key ?key ?subs)
             = filter (\<lambda>s. sub_priority s = p) ?subs" for p
    using filter_sort[of "\<lambda>s. sub_priority s = p" ?key ?subs] sort_key_stable[of ?key "- p" ?subs]
    by simp
  show ?thesis using a b by (simp add: startedFor_publish)
qed

end
